theory Spec2Isabelle
  imports Complex_Main "HOL-Library.Word"
begin

unbundle bit_operations_syntax

section \<open>JavaScript numbers and the 32-bit integer operators\<close>

text \<open>
  A JavaScript \<^verbatim>\<open>number\<close> is an IEEE-754 double. The finite ones are rationals;
  the four special values are constructors of their own. The bitwise operators first
  convert their operand with ToInt32 (truncate towards zero, wrap modulo \<open>2^32\<close>, read as
  two's complement; every non-finite value becomes 0) and take the shift count modulo 32.
\<close>

datatype jsnumber = Num rat | NegZero | NaN | PosInfinity | NegInfinity

definition trunc_toward_zero :: "rat \<Rightarrow> int" where
  "trunc_toward_zero r = (if 0 \<le> r then \<lfloor>r\<rfloor> else - \<lfloor>- r\<rfloor>)"

fun ToInt32 :: "jsnumber \<Rightarrow> 32 word" where
  "ToInt32 (Num r) = word_of_int (trunc_toward_zero r)"
| "ToInt32 _ = 0"

text \<open>\<^verbatim>\<open>x << k\<close> and \<^verbatim>\<open>x >> k\<close> on an int32 operand.\<close>

definition js_shl :: "32 word \<Rightarrow> nat \<Rightarrow> 32 word" where
  "js_shl x k = push_bit (k mod 32) x"

definition js_sar :: "32 word \<Rightarrow> nat \<Rightarrow> 32 word" where
  "js_sar x k = signed_drop_bit (k mod 32) x"

text \<open>The number an int32 result denotes.\<close>

definition number_of_int32 :: "32 word \<Rightarrow> jsnumber" where
  "number_of_int32 w = Num (of_int (sint w))"

subsection \<open>IEEE-754 encodings, as DataView reads and writes them\<close>

definition pow2 :: "int \<Rightarrow> rat" where
  "pow2 e = (if 0 \<le> e then 2 ^ nat e else 1 / 2 ^ nat (- e))"

text \<open>
  \<open>ieee_decode f w bits\<close> is the value of a bit pattern with \<open>f\<close> fraction bits and
  \<open>w\<close> exponent bits (\<open>23, 8\<close> for binary32 and \<open>52, 11\<close> for binary64). Every NaN
  pattern is the one value \<open>NaN\<close>.
\<close>

definition ieee_decode :: "nat \<Rightarrow> nat \<Rightarrow> nat \<Rightarrow> jsnumber" where
  "ieee_decode f w bits =
    (let frac = bits mod 2 ^ f;
         ex = (bits div 2 ^ f) mod 2 ^ w;
         neg = ((bits div 2 ^ (f + w)) mod 2 = 1);
         bias = 2 ^ (w - 1) - 1
     in if ex = 2 ^ w - 1 then (if frac \<noteq> 0 then NaN else if neg then NegInfinity else PosInfinity)
        else if ex = 0 \<and> frac = 0 then (if neg then NegZero else Num 0)
        else let m = (if ex = 0 then frac else 2 ^ f + frac);
                 e = int (max ex 1) - int bias - int f;
                 v = of_nat m * pow2 e
             in Num (if neg then - v else v))"

text \<open>\<open>round_half_even n d\<close>: the integer nearest to \<open>n / d\<close> for \<open>d > 0\<close>, ties to even.\<close>

definition round_half_even :: "int \<Rightarrow> int \<Rightarrow> int" where
  "round_half_even n d =
    (let q = n div d; r2 = 2 * (n mod d)
     in if r2 < d then q else if d < r2 then q + 1 else if even q then q else q + 1)"

fun bit_length :: "nat \<Rightarrow> nat" where
  "bit_length n = (if n = 0 then 0 else Suc (bit_length (n div 2)))"

declare bit_length.simps [simp del]

text \<open>For positive \<open>n\<close> and \<open>d\<close>, the exponent of the leading binary digit of \<open>n / d\<close>.\<close>

definition floor_log2 :: "int \<Rightarrow> int \<Rightarrow> int" where
  "floor_log2 n d =
    (let k = int (bit_length (nat n)) - int (bit_length (nat d))
     in if (if 0 \<le> k then d * 2 ^ nat k \<le> n else d \<le> n * 2 ^ nat (- k)) then k else k - 1)"

text \<open>
  \<open>ieee_encode f w v\<close> rounds \<open>v\<close> to the nearest value of the format, ties to even,
  and gives its bit pattern; a NaN is written as the quiet NaN with an empty payload.
\<close>

definition ieee_encode :: "nat \<Rightarrow> nat \<Rightarrow> jsnumber \<Rightarrow> nat" where
  "ieee_encode f w v =
    (let signbit = 2 ^ (f + w); expmax = 2 ^ w - 1; bias = 2 ^ (w - 1) - 1
     in case v of
          NaN \<Rightarrow> expmax * 2 ^ f + 2 ^ (f - 1)
        | PosInfinity \<Rightarrow> expmax * 2 ^ f
        | NegInfinity \<Rightarrow> signbit + expmax * 2 ^ f
        | NegZero \<Rightarrow> signbit
        | Num r \<Rightarrow>
            if r = 0 then 0
            else let s = (if r < 0 then signbit else 0);
                     (n, d) = quotient_of \<bar>r\<bar>;
                     e0 = max (floor_log2 n d) (1 - int bias);
                     sh = e0 - int f;
                     q0 = nat (if 0 \<le> sh then round_half_even n (d * 2 ^ nat sh)
                               else round_half_even (n * 2 ^ nat (- sh)) d);
                     e = (if q0 = 2 ^ (f + 1) then e0 + 1 else e0);
                     q = (if q0 = 2 ^ (f + 1) then 2 ^ f else q0)
                 in if int bias < e then s + expmax * 2 ^ f
                    else if q < 2 ^ f then s + q
                    else s + nat (e + int bias) * 2 ^ f + (q - 2 ^ f))"

text \<open>\<^verbatim>\<open>Math.fround\<close>: the nearest single-precision value, as a number.\<close>

definition fround :: "jsnumber \<Rightarrow> jsnumber" where
  "fround v = ieee_decode 23 8 (ieee_encode 23 8 v)"

section \<open>Primitive wrappers (primitive.ts)\<close>

text \<open>
  \<^verbatim>\<open>class Byte extends Number { constructor(value) { super(value << 24 >> 24); } }\<close>
  and its siblings. Each function gives the number the wrapper object holds. The classes
  are named \<^verbatim>\<open>Byte\<close>, \<^verbatim>\<open>Short\<close>, \<^verbatim>\<open>Int\<close>, \<^verbatim>\<open>Float\<close> here and
  \<^verbatim>\<open>Int8\<close>, \<^verbatim>\<open>Int16\<close>, \<^verbatim>\<open>Int32\<close>, \<^verbatim>\<open>Float32\<close> where the reader and the
  parser import them.
\<close>

definition new_Byte :: "jsnumber \<Rightarrow> jsnumber" where
  "new_Byte v = number_of_int32 (js_sar (js_shl (ToInt32 v) 24) 24)"

definition new_Short :: "jsnumber \<Rightarrow> jsnumber" where
  "new_Short v = number_of_int32 (js_sar (js_shl (ToInt32 v) 16) 16)"

definition new_Int :: "jsnumber \<Rightarrow> jsnumber" where
  "new_Int v = number_of_int32 (ToInt32 v OR 0)"

definition new_Float :: "jsnumber \<Rightarrow> jsnumber" where
  "new_Float v = v"

section \<open>Strings and the tag tree\<close>

text \<open>
  A JavaScript string is a sequence of UTF-16 code units. \<open>str\<close> writes an ASCII
  literal as such a string.
\<close>

type_synonym byte = "8 word"
type_synonym jsstring = "16 word list"

definition str :: "string \<Rightarrow> jsstring" where
  "str s = map of_char s"

text \<open>
  The tag ids of the wire format (\<^verbatim>\<open>TAG\<close> of tag.ts) and the values that carry them.
  An integer tag holds the \<^verbatim>\<open>valueOf()\<close> of its wrapper object, a long its bigint, a
  float or double its number. A compound is a JavaScript object: its entries in the
  order \<^verbatim>\<open>Object.entries\<close> lists them.
\<close>

datatype TAG = TAG_END | TAG_BYTE | TAG_SHORT | TAG_INT | TAG_LONG | TAG_FLOAT | TAG_DOUBLE | TAG_BYTE_ARRAY | TAG_STRING
  | TAG_LIST | TAG_COMPOUND | TAG_INT_ARRAY | TAG_LONG_ARRAY

datatype tag =
    BooleanTag bool
  | ByteTag int
  | ShortTag int
  | IntTag int
  | LongTag int
  | FloatTag jsnumber
  | DoubleTag jsnumber
  | ByteArrayTag "int list"
  | StringTag jsstring
  | ListTag "tag list"
  | CompoundTag "(jsstring \<times> tag) list"
  | IntArrayTag "int list"
  | LongArrayTag "int list"

text \<open>
  Modelled from the spec: \<^verbatim>\<open>getTagType\<close> and \<^verbatim>\<open>isTagType\<close> of tag.ts, which is
  not among the sources (section 4.A: a boolean reports TAG_BYTE, a wrapper its declared
  width, and so on; ids 0 to 12 are the tag ids). Every value of type \<open>tag\<close> is a
  valid tag, so \<^verbatim>\<open>getTagType\<close> never answers \<^verbatim>\<open>null\<close> here and
  \<^verbatim>\<open>sanitizeList\<close> and \<^verbatim>\<open>sanitizeCompound\<close> keep every entry.
\<close>

fun getTagType :: "tag \<Rightarrow> TAG" where
  "getTagType (BooleanTag _) = TAG_BYTE"
| "getTagType (ByteTag _) = TAG_BYTE"
| "getTagType (ShortTag _) = TAG_SHORT"
| "getTagType (IntTag _) = TAG_INT"
| "getTagType (LongTag _) = TAG_LONG"
| "getTagType (FloatTag _) = TAG_FLOAT"
| "getTagType (DoubleTag _) = TAG_DOUBLE"
| "getTagType (ByteArrayTag _) = TAG_BYTE_ARRAY"
| "getTagType (StringTag _) = TAG_STRING"
| "getTagType (ListTag _) = TAG_LIST"
| "getTagType (CompoundTag _) = TAG_COMPOUND"
| "getTagType (IntArrayTag _) = TAG_INT_ARRAY"
| "getTagType (LongArrayTag _) = TAG_LONG_ARRAY"

definition TAG_ids :: "TAG list" where
  "TAG_ids = [TAG_END, TAG_BYTE, TAG_SHORT, TAG_INT, TAG_LONG, TAG_FLOAT, TAG_DOUBLE, TAG_BYTE_ARRAY, TAG_STRING, TAG_LIST, TAG_COMPOUND,
     TAG_INT_ARRAY, TAG_LONG_ARRAY]"

definition isTagType :: "nat \<Rightarrow> bool" where
  "isTagType n = (n < length TAG_ids)"

definition TAG_of_id :: "nat \<Rightarrow> TAG" where
  "TAG_of_id n = TAG_ids ! n"

fun id_of_TAG :: "TAG \<Rightarrow> nat" where
  "id_of_TAG TAG_END = 0"
| "id_of_TAG TAG_BYTE = 1"
| "id_of_TAG TAG_SHORT = 2"
| "id_of_TAG TAG_INT = 3"
| "id_of_TAG TAG_LONG = 4"
| "id_of_TAG TAG_FLOAT = 5"
| "id_of_TAG TAG_DOUBLE = 6"
| "id_of_TAG TAG_BYTE_ARRAY = 7"
| "id_of_TAG TAG_STRING = 8"
| "id_of_TAG TAG_LIST = 9"
| "id_of_TAG TAG_COMPOUND = 10"
| "id_of_TAG TAG_INT_ARRAY = 11"
| "id_of_TAG TAG_LONG_ARRAY = 12"

subsection \<open>Objects\<close>

text \<open>
  \<^verbatim>\<open>value[name] = entry\<close> on a plain object. An existing key keeps its place and takes
  the new value. A new key that is an array index (the canonical decimal form of an
  integer below \<open>2^32 - 1\<close>) is enumerated before every other key, in ascending numeric
  order among the indices; any other new key is enumerated last. The key
  \<^verbatim>\<open>__proto__\<close> reaches the inherited accessor and adds no entry.
\<close>

definition is_digit :: "16 word \<Rightarrow> bool" where
  "is_digit c = (0x30 \<le> c \<and> c \<le> 0x39)"

definition digits_value :: "jsstring \<Rightarrow> nat" where
  "digits_value ds = foldl (\<lambda>acc c. acc * 10 + (unat c - 48)) 0 ds"

definition array_index :: "jsstring \<Rightarrow> nat option" where
  "array_index k =
    (if k \<noteq> [] \<and> list_all is_digit k \<and> (hd k \<noteq> 0x30 \<or> length k = 1)
        \<and> digits_value k < 2 ^ 32 - 1
     then Some (digits_value k) else None)"

fun insert_index :: "nat \<Rightarrow> jsstring \<times> tag \<Rightarrow> (jsstring \<times> tag) list \<Rightarrow> (jsstring \<times> tag) list" where
  "insert_index i kv [] = [kv]"
| "insert_index i kv (e # es) =
    (case array_index (fst e) of
       Some j \<Rightarrow> if j < i then e # insert_index i kv es else kv # e # es
     | None \<Rightarrow> kv # e # es)"

definition obj_set :: "jsstring \<Rightarrow> tag \<Rightarrow> (jsstring \<times> tag) list \<Rightarrow> (jsstring \<times> tag) list" where
  "obj_set k v es =
    (if k = str ''__proto__'' then es
     else if k \<in> set (map fst es) then map (\<lambda>(k', v'). if k' = k then (k', v) else (k', v')) es
     else case array_index k of
            Some i \<Rightarrow> insert_index i (k, v) es
          | None \<Rightarrow> es @ [(k, v)])"

subsection \<open>String codecs\<close>

text \<open>
  The reader decodes string payloads with \<^verbatim>\<open>MUtf8Decoder\<close> of the package
  \<^verbatim>\<open>mutf-8\<close> (in its default, non-fatal mode) and the writer encodes them with the
  platform's \<^verbatim>\<open>TextEncoder\<close>. Neither is code of this repository; both are modelled
  from the formats they implement. Modified UTF-8 has one-, two- and three-byte forms
  only: U+0000 is the two bytes C0 80, and a supplementary character is two three-byte
  surrogates. A byte that starts no well-formed sequence decodes to U+FFFD. The decoder
  is built with no option, so \<^verbatim>\<open>ignoreBOM\<close> is false and a byte order mark
  \<^verbatim>\<open>EF BB BF\<close> at the start of the payload is dropped.
\<close>

fun mutf8_decode_units :: "byte list \<Rightarrow> jsstring" where
  "mutf8_decode_units [] = []"
| "mutf8_decode_units (b1 # bs) =
    (if b1 AND 0x80 = 0 \<and> b1 \<noteq> 0 then ucast b1 # mutf8_decode_units bs
     else if drop_bit 5 b1 = 6 then
       (case bs of
          b2 # bs' \<Rightarrow>
            if drop_bit 6 b2 = 2
            then (push_bit 6 (ucast (b1 AND 0x1F)) OR ucast (b2 AND 0x3F)) # mutf8_decode_units bs'
            else 0xFFFD # mutf8_decode_units bs
        | [] \<Rightarrow> 0xFFFD # mutf8_decode_units bs)
     else if drop_bit 4 b1 = 14 then
       (case bs of
          b2 # b3 # bs' \<Rightarrow>
            if drop_bit 6 b2 = 2 \<and> drop_bit 6 b3 = 2
            then (push_bit 12 (ucast (b1 AND 0x0F)) OR push_bit 6 (ucast (b2 AND 0x3F))
                    OR ucast (b3 AND 0x3F)) # mutf8_decode_units bs'
            else 0xFFFD # mutf8_decode_units bs
        | _ \<Rightarrow> 0xFFFD # mutf8_decode_units bs)
     else 0xFFFD # mutf8_decode_units bs)"

definition mutf8_decode :: "byte list \<Rightarrow> jsstring" where
  "mutf8_decode bs =
    mutf8_decode_units (if take 3 bs = [0xEF, 0xBB, 0xBF] then drop 3 bs else bs)"

text \<open>
  \<^verbatim>\<open>TextEncoder.encode\<close>: standard UTF-8 of the string's code points. A surrogate
  pair is one code point of four bytes; a lone surrogate is replaced by U+FFFD.
\<close>

definition utf8_of_codepoint :: "nat \<Rightarrow> byte list" where
  "utf8_of_codepoint c =
    (if c < 0x80 then [of_nat c]
     else if c < 0x800 then [of_nat (0xC0 + c div 64), of_nat (0x80 + c mod 64)]
     else if c < 0x10000 then
       [of_nat (0xE0 + c div 4096), of_nat (0x80 + (c div 64) mod 64), of_nat (0x80 + c mod 64)]
     else [of_nat (0xF0 + c div 262144), of_nat (0x80 + (c div 4096) mod 64),
           of_nat (0x80 + (c div 64) mod 64), of_nat (0x80 + c mod 64)])"

definition is_high_surrogate :: "16 word \<Rightarrow> bool" where
  "is_high_surrogate u = (0xD800 \<le> u \<and> u \<le> 0xDBFF)"

definition is_low_surrogate :: "16 word \<Rightarrow> bool" where
  "is_low_surrogate u = (0xDC00 \<le> u \<and> u \<le> 0xDFFF)"

fun utf8_encode :: "jsstring \<Rightarrow> byte list" where
  "utf8_encode [] = []"
| "utf8_encode [u] =
    (if is_high_surrogate u \<or> is_low_surrogate u then utf8_of_codepoint 0xFFFD
     else utf8_of_codepoint (unat u))"
| "utf8_encode (u # v # us) =
    (if is_high_surrogate u \<and> is_low_surrogate v
     then utf8_of_codepoint (0x10000 + (unat u - 0xD800) * 1024 + (unat v - 0xDC00)) @ utf8_encode us
     else if is_high_surrogate u \<or> is_low_surrogate u
     then utf8_of_codepoint 0xFFFD @ utf8_encode (v # us)
     else utf8_of_codepoint (unat u) @ utf8_encode (v # us))"

section \<open>The envelope and the errors\<close>

datatype Endian = Big | Little | LittleVarint

datatype Compression = Deflate | DeflateRaw | Gzip

text \<open>The \<^verbatim>\<open>rootName\<close> and \<^verbatim>\<open>bedrockLevel\<close> options: a boolean, a value or \<^verbatim>\<open>null\<close>.\<close>

datatype RootNameOption = RootNameBool bool | RootNameString jsstring | RootNameNull

datatype BedrockLevelOption = BedrockLevelBool bool | BedrockLevelNumber jsnumber | BedrockLevelNull

text \<open>
  \<^verbatim>\<open>NBTData\<close>: the root tag and its envelope. The reader's overrun error builds its
  cause from the root, the root name and the endian alone, so the other two fields are
  optional here (\<open>None\<close>: not passed to the constructor).
\<close>

record NBTData =
  data :: tag
  rootName :: "jsstring option"
  endian :: Endian
  compression :: "Compression option option"
  bedrockLevel :: "BedrockLevelOption option"

text \<open>
  What the code throws. \<open>RanOutOfBytes\<close> is the reader's own bounds check;
  \<open>RangeError\<close> is the platform's (a DataView access outside the view, a typed array of
  negative length); \<open>TrailingBytes\<close> is the \<^verbatim>\<open>NBTError\<close> of strict mode with its byte
  offset, its count of unread bytes and its cause; \<open>CompressionFailure\<close> is whatever the
  external compression service throws; \<open>TypeError\<close> carries its message, and so does
  \<open>SyntaxError\<close>, the plain \<^verbatim>\<open>Error\<close> of the SNBT parser (without the character it
  quotes). \<open>NotModelled\<close> is not an error of the code: it marks the few coercions of
  the SNBT parser that the model does not follow.
\<close>

datatype error =
    RanOutOfBytes
  | RangeError
  | UnexpectedEndTag int int
  | UnsupportedTagType nat int
  | VarintTooBig nat
  | ExpectedListOrCompound TAG
  | TrailingBytes int int NBTData
  | CompressionFailure
  | TypeError string
  | SyntaxError string
  | NotModelled

definition then_do :: "'e + 'a \<Rightarrow> ('a \<Rightarrow> 'e + 'b) \<Rightarrow> 'e + 'b" where
  "then_do m f = (case m of Inl e \<Rightarrow> Inl e | Inr a \<Rightarrow> f a)"

section \<open>The binary reader (class NBTReader)\<close>

text \<open>
  The reader's buffer and its two dialect flags are fixed while a root is read; the
  cursor \<^verbatim>\<open>#byteOffset\<close> is passed through every method and returned with its
  result. It is a JavaScript number: nothing keeps it from going negative.
\<close>

record NBTReader =
  reader_data :: "byte list"
  littleEndian :: bool
  varint :: bool

definition byteLength :: "NBTReader \<Rightarrow> int" where
  "byteLength r = int (length (reader_data r))"

definition allocate :: "NBTReader \<Rightarrow> int \<Rightarrow> int \<Rightarrow> error + unit" where
  "allocate r byteOffset n =
    (if byteOffset + n > byteLength r then Inl RanOutOfBytes else Inr ())"

subsection \<open>DataView and typed arrays\<close>

text \<open>A DataView getter throws a RangeError unless the whole access lies in the view.\<close>

definition view_bytes :: "NBTReader \<Rightarrow> int \<Rightarrow> nat \<Rightarrow> error + byte list" where
  "view_bytes r byteOffset n =
    (if byteOffset < 0 \<or> byteOffset + int n > byteLength r then Inl RangeError
     else Inr (take n (drop (nat byteOffset) (reader_data r))))"

definition uint_of_bytes :: "bool \<Rightarrow> byte list \<Rightarrow> nat" where
  "uint_of_bytes le bs = foldl (\<lambda>acc b. acc * 256 + unat b) 0 (if le then rev bs else bs)"

definition getUint :: "NBTReader \<Rightarrow> nat \<Rightarrow> int \<Rightarrow> bool \<Rightarrow> error + nat" where
  "getUint r n byteOffset le = then_do (view_bytes r byteOffset n) (\<lambda>bs. Inr (uint_of_bytes le bs))"

definition getInt8 :: "NBTReader \<Rightarrow> int \<Rightarrow> error + int" where
  "getInt8 r byteOffset = then_do (getUint r 1 byteOffset False) (\<lambda>v. Inr (sint (word_of_nat v :: 8 word)))"

definition getInt16 :: "NBTReader \<Rightarrow> int \<Rightarrow> bool \<Rightarrow> error + int" where
  "getInt16 r byteOffset le = then_do (getUint r 2 byteOffset le) (\<lambda>v. Inr (sint (word_of_nat v :: 16 word)))"

definition getInt32 :: "NBTReader \<Rightarrow> int \<Rightarrow> bool \<Rightarrow> error + int" where
  "getInt32 r byteOffset le = then_do (getUint r 4 byteOffset le) (\<lambda>v. Inr (sint (word_of_nat v :: 32 word)))"

definition getBigInt64 :: "NBTReader \<Rightarrow> int \<Rightarrow> bool \<Rightarrow> error + int" where
  "getBigInt64 r byteOffset le = then_do (getUint r 8 byteOffset le) (\<lambda>v. Inr (sint (word_of_nat v :: 64 word)))"

definition getFloat32 :: "NBTReader \<Rightarrow> int \<Rightarrow> bool \<Rightarrow> error + jsnumber" where
  "getFloat32 r byteOffset le = then_do (getUint r 4 byteOffset le) (\<lambda>v. Inr (ieee_decode 23 8 v))"

definition getFloat64 :: "NBTReader \<Rightarrow> int \<Rightarrow> bool \<Rightarrow> error + jsnumber" where
  "getFloat64 r byteOffset le = then_do (getUint r 8 byteOffset le) (\<lambda>v. Inr (ieee_decode 52 11 v))"

text \<open>
  \<^verbatim>\<open>subarray(begin, end)\<close>: a negative index counts from the end of the array, both
  indices are clamped to the array, and an end before the begin gives the empty array.
\<close>

definition subarray :: "byte list \<Rightarrow> int \<Rightarrow> int \<Rightarrow> byte list" where
  "subarray d begin end' =
    (let len = int (length d);
         b = (if begin < 0 then max (len + begin) 0 else min begin len);
         e = (if end' < 0 then max (len + end') 0 else min end' len)
     in take (nat (e - b)) (drop (nat b) d))"

text \<open>The integer wrappers on an integral number, as the integer they hold.\<close>

definition valueOf_int :: "jsnumber \<Rightarrow> int" where
  "valueOf_int v = (case v of Num q \<Rightarrow> \<lfloor>q\<rfloor> | _ \<Rightarrow> 0)"

definition Int8 :: "int \<Rightarrow> int" where
  "Int8 i = valueOf_int (new_Byte (Num (of_int i)))"

definition Int16 :: "int \<Rightarrow> int" where
  "Int16 i = valueOf_int (new_Short (Num (of_int i)))"

definition Int32 :: "int \<Rightarrow> int" where
  "Int32 i = valueOf_int (new_Int (Num (of_int i)))"

definition Float32 :: "jsnumber \<Rightarrow> jsnumber" where
  "Float32 v = new_Float v"

subsection \<open>Scalars\<close>

definition readUnsignedByte :: "NBTReader \<Rightarrow> int \<Rightarrow> error + nat \<times> int" where
  "readUnsignedByte r byteOffset =
    then_do (allocate r byteOffset 1) (\<lambda>_.
    then_do (getUint r 1 byteOffset False) (\<lambda>v'. Inr (v', byteOffset + 1)))"

text \<open>\<^verbatim>\<open>#readByte(true)\<close>: the plain number.\<close>

definition readByte :: "NBTReader \<Rightarrow> int \<Rightarrow> error + int \<times> int" where
  "readByte r byteOffset =
    then_do (allocate r byteOffset 1) (\<lambda>_.
    then_do (getInt8 r byteOffset) (\<lambda>v'. Inr (v', byteOffset + 1)))"

definition readTagType :: "NBTReader \<Rightarrow> int \<Rightarrow> error + TAG \<times> int" where
  "readTagType r byteOffset =
    then_do (readUnsignedByte r byteOffset) (\<lambda>(type, byteOffset).
      if \<not> isTagType type then Inl (UnsupportedTagType type byteOffset)
      else Inr (TAG_of_id type, byteOffset))"

lemma readByte_advances:
  "readByte r byteOffset = Inr (b, byteOffset') \<Longrightarrow>
     byteOffset' = byteOffset + 1 \<and> 0 \<le> byteOffset \<and> byteOffset < byteLength r"
  by (auto simp: readByte_def then_do_def allocate_def getInt8_def getUint_def view_bytes_def
      split: if_splits sum.splits)

text \<open>
  \<^verbatim>\<open>#readVarInt\<close>: the unsigned varint, with no limit on the shift. The accumulator is
  an int32 (\<^verbatim>\<open>value |= (byte & 0x7F) << shift\<close>).
\<close>

function readVarInt_loop :: "NBTReader \<Rightarrow> 32 word \<Rightarrow> nat \<Rightarrow> int \<Rightarrow> error + int \<times> int" where
  "readVarInt_loop r value' shift byteOffset =
    (case readByte r byteOffset of
       Inl e \<Rightarrow> Inl e
     | Inr (byte, byteOffset') \<Rightarrow>
         let value'' = value' OR js_shl (word_of_int byte AND 0x7F) shift
         in if word_of_int byte AND (0x80 :: 32 word) = 0 then Inr (sint value'', byteOffset')
            else readVarInt_loop r value'' (shift + 7) byteOffset')"
  by pat_completeness auto
termination
  by (relation "measure (\<lambda>(r, v, s, off). nat (byteLength r - off))")
    (auto dest!: readByte_advances)

definition readVarInt :: "NBTReader \<Rightarrow> int \<Rightarrow> error + int \<times> int" where
  "readVarInt r byteOffset = readVarInt_loop r 0 0 byteOffset"

text \<open>
  The zig-zag decoding of \<^verbatim>\<open>#readVarIntZigZag\<close>:
  \<^verbatim>\<open>((((result << 63) >> 63) ^ result) >> 1) ^ (result & (1 << 63))\<close>.
\<close>

definition zigzag_int :: "32 word \<Rightarrow> 32 word" where
  "zigzag_int result = js_sar (js_sar (js_shl result 63) 63 XOR result) 1 XOR (result AND js_shl 1 63)"

text \<open>
  \<^verbatim>\<open>#readVarIntZigZag\<close>, without the \<^verbatim>\<open>size\<close> it also returns, which no caller
  reads.
\<close>

function readVarIntZigZag_loop :: "NBTReader \<Rightarrow> 32 word \<Rightarrow> nat \<Rightarrow> int \<Rightarrow> error + int \<times> int" where
  "readVarIntZigZag_loop r result shift byteOffset =
    (case allocate r byteOffset 1 of
       Inl e \<Rightarrow> Inl e
     | Inr _ \<Rightarrow>
        (case readByte r byteOffset of
           Inl e \<Rightarrow> Inl e
         | Inr (b, byteOffset') \<Rightarrow>
             let result' = result OR js_shl (word_of_int b AND 0x7F) shift
             in if word_of_int b AND (0x80 :: 32 word) = 0
                then Inr (sint (zigzag_int result'), byteOffset')
                else if shift + 7 > 63 then Inl (VarintTooBig (shift + 7))
                else readVarIntZigZag_loop r result' (shift + 7) byteOffset'))"
  by pat_completeness auto
termination
  by (relation "measure (\<lambda>(r, v, s, off). nat (byteLength r - off))")
    (auto dest!: readByte_advances)

definition readVarIntZigZag :: "NBTReader \<Rightarrow> int \<Rightarrow> error + int \<times> int" where
  "readVarIntZigZag r byteOffset = readVarIntZigZag_loop r 0 0 byteOffset"

text \<open>
  The zig-zag decoding of \<^verbatim>\<open>#readVarLongZigZag\<close>, on bigints:
  \<^verbatim>\<open>(result >> 1n) ^ -(result & 1n)\<close>.
\<close>

definition zigzag_long :: "int \<Rightarrow> int" where
  "zigzag_long result = drop_bit 1 result XOR - (result AND 1)"

function readVarLongZigZag_loop :: "NBTReader \<Rightarrow> int \<Rightarrow> nat \<Rightarrow> int \<Rightarrow> error + int \<times> int" where
  "readVarLongZigZag_loop r result shift byteOffset =
    (case allocate r byteOffset 1 of
       Inl e \<Rightarrow> Inl e
     | Inr _ \<Rightarrow>
        (case readByte r byteOffset of
           Inl e \<Rightarrow> Inl e
         | Inr (b, byteOffset') \<Rightarrow>
             let result' = result OR push_bit shift (b AND 0x7F)
             in if word_of_int b AND (0x80 :: 32 word) = 0
                then Inr (zigzag_long result', byteOffset')
                else if shift + 7 > 63 then Inl (VarintTooBig (shift + 7))
                else readVarLongZigZag_loop r result' (shift + 7) byteOffset'))"
  by pat_completeness auto
termination
  by (relation "measure (\<lambda>(r, v, s, off). nat (byteLength r - off))")
    (auto dest!: readByte_advances)

definition readVarLongZigZag :: "NBTReader \<Rightarrow> int \<Rightarrow> error + int \<times> int" where
  "readVarLongZigZag r byteOffset = readVarLongZigZag_loop r 0 0 byteOffset"

declare readVarInt_loop.simps [simp del] readVarIntZigZag_loop.simps [simp del]
  readVarLongZigZag_loop.simps [simp del]

definition readUnsignedShort :: "NBTReader \<Rightarrow> int \<Rightarrow> error + int \<times> int" where
  "readUnsignedShort r byteOffset =
    (if varint r then readVarInt r byteOffset
     else then_do (allocate r byteOffset 2) (\<lambda>_.
          then_do (getUint r 2 byteOffset (littleEndian r)) (\<lambda>v'. Inr (int v', byteOffset + 2))))"

definition readShort :: "NBTReader \<Rightarrow> int \<Rightarrow> error + int \<times> int" where
  "readShort r byteOffset =
    then_do (allocate r byteOffset 2) (\<lambda>_.
    then_do (getInt16 r byteOffset (littleEndian r)) (\<lambda>v'. Inr (v', byteOffset + 2)))"

definition readUnsignedInt :: "NBTReader \<Rightarrow> int \<Rightarrow> error + int \<times> int" where
  "readUnsignedInt r byteOffset =
    (if varint r then readVarInt r byteOffset
     else then_do (allocate r byteOffset 4) (\<lambda>_.
          then_do (getUint r 4 byteOffset (littleEndian r)) (\<lambda>v'. Inr (int v', byteOffset + 4))))"

text \<open>\<^verbatim>\<open>#readInt(true)\<close>.\<close>

definition readInt :: "NBTReader \<Rightarrow> int \<Rightarrow> error + int \<times> int" where
  "readInt r byteOffset =
    (if varint r then readVarIntZigZag r byteOffset
     else then_do (allocate r byteOffset 4) (\<lambda>_.
          then_do (getInt32 r byteOffset (littleEndian r)) (\<lambda>v'. Inr (v', byteOffset + 4))))"

definition readLong :: "NBTReader \<Rightarrow> int \<Rightarrow> error + int \<times> int" where
  "readLong r byteOffset =
    (if varint r then readVarLongZigZag r byteOffset
     else then_do (allocate r byteOffset 8) (\<lambda>_.
          then_do (getBigInt64 r byteOffset (littleEndian r)) (\<lambda>v'. Inr (v', byteOffset + 8))))"

text \<open>\<^verbatim>\<open>#readFloat(true)\<close>.\<close>

definition readFloat :: "NBTReader \<Rightarrow> int \<Rightarrow> error + jsnumber \<times> int" where
  "readFloat r byteOffset =
    then_do (allocate r byteOffset 4) (\<lambda>_.
    then_do (getFloat32 r byteOffset (littleEndian r)) (\<lambda>v'. Inr (v', byteOffset + 4)))"

definition readDouble :: "NBTReader \<Rightarrow> int \<Rightarrow> error + jsnumber \<times> int" where
  "readDouble r byteOffset =
    then_do (allocate r byteOffset 8) (\<lambda>_.
    then_do (getFloat64 r byteOffset (littleEndian r)) (\<lambda>v'. Inr (v', byteOffset + 8)))"

subsection \<open>Arrays and strings\<close>

definition readByteArray :: "NBTReader \<Rightarrow> int \<Rightarrow> error + int list \<times> int" where
  "readByteArray r byteOffset =
    then_do (readInt r byteOffset) (\<lambda>(length', byteOffset).
    then_do (allocate r byteOffset length') (\<lambda>_.
      Inr (map sint (subarray (reader_data r) byteOffset (byteOffset + length')),
           byteOffset + length')))"

definition readString :: "NBTReader \<Rightarrow> int \<Rightarrow> error + jsstring \<times> int" where
  "readString r byteOffset =
    then_do (readUnsignedShort r byteOffset) (\<lambda>(length', byteOffset).
    then_do (allocate r byteOffset length') (\<lambda>_.
      Inr (mutf8_decode (subarray (reader_data r) byteOffset (byteOffset + length')),
           byteOffset + length')))"

text \<open>
  \<^verbatim>\<open>for (const i in value)\<close> over a typed array of \<open>n\<close> elements runs its body \<open>n\<close>
  times, in index order. \<^verbatim>\<open>new Int32Array(length)\<close> throws a RangeError for a negative
  length. A BigInt64Array element keeps the low 64 bits of what is stored.
\<close>

fun readInts :: "NBTReader \<Rightarrow> nat \<Rightarrow> int \<Rightarrow> int list \<Rightarrow> error + int list \<times> int" where
  "readInts r 0 byteOffset value' = Inr (value', byteOffset)"
| "readInts r (Suc n) byteOffset value' =
    then_do (readInt r byteOffset) (\<lambda>(entry, byteOffset). readInts r n byteOffset (value' @ [entry]))"

fun readLongs :: "NBTReader \<Rightarrow> nat \<Rightarrow> int \<Rightarrow> int list \<Rightarrow> error + int list \<times> int" where
  "readLongs r 0 byteOffset value' = Inr (value', byteOffset)"
| "readLongs r (Suc n) byteOffset value' =
    then_do (readLong r byteOffset) (\<lambda>(entry, byteOffset).
      readLongs r n byteOffset (value' @ [signed_take_bit 63 entry]))"

definition readIntArray :: "NBTReader \<Rightarrow> int \<Rightarrow> error + int list \<times> int" where
  "readIntArray r byteOffset =
    then_do (readInt r byteOffset) (\<lambda>(length', byteOffset).
      if length' < 0 then Inl RangeError else readInts r (nat length') byteOffset [])"

definition readLongArray :: "NBTReader \<Rightarrow> int \<Rightarrow> error + int list \<times> int" where
  "readLongArray r byteOffset =
    then_do (readInt r byteOffset) (\<lambda>(length', byteOffset).
      if length' < 0 then Inl RangeError else readLongs r (nat length') byteOffset [])"

subsection \<open>Tags\<close>

text \<open>
  \<^verbatim>\<open>#readTag\<close>, \<^verbatim>\<open>#readList\<close> and \<^verbatim>\<open>#readCompound\<close> call one another, and the
  loop of \<^verbatim>\<open>#readCompound\<close> has no bound of its own. The first argument after the
  reader is fuel: each call and each loop iteration uses one unit, and \<open>None\<close> says the
  fuel ran out before the method returned or threw. The list a \<^verbatim>\<open>#readList\<close> returns
  also carries its element type under the symbol \<^verbatim>\<open>TAG_TYPE\<close>; no code here reads it
  back, and the model leaves it out.
\<close>

fun readTag :: "NBTReader \<Rightarrow> nat \<Rightarrow> TAG \<Rightarrow> int \<Rightarrow> (error + tag \<times> int) option"
  and readList_loop :: "NBTReader \<Rightarrow> nat \<Rightarrow> TAG \<Rightarrow> int \<Rightarrow> int \<Rightarrow> int \<Rightarrow> tag list \<Rightarrow> (error + tag \<times> int) option"
  and readCompound_loop :: "NBTReader \<Rightarrow> nat \<Rightarrow> int \<Rightarrow> (jsstring \<times> tag) list \<Rightarrow> (error + tag \<times> int) option"
where
  "readTag r 0 type byteOffset = None"
| "readTag r (Suc fuel) type byteOffset =
    (case type of
       TAG_END \<Rightarrow> Some (Inl (UnexpectedEndTag byteOffset (byteLength r - byteOffset)))
     | TAG_BYTE \<Rightarrow> Some (then_do (readByte r byteOffset) (\<lambda>(v', off). Inr (ByteTag (Int8 v'), off)))
     | TAG_SHORT \<Rightarrow> Some (then_do (readShort r byteOffset) (\<lambda>(v', off). Inr (ShortTag (Int16 v'), off)))
     | TAG_INT \<Rightarrow> Some (then_do (readInt r byteOffset) (\<lambda>(v', off). Inr (IntTag (Int32 v'), off)))
     | TAG_LONG \<Rightarrow> Some (then_do (readLong r byteOffset) (\<lambda>(v', off). Inr (LongTag v', off)))
     | TAG_FLOAT \<Rightarrow> Some (then_do (readFloat r byteOffset) (\<lambda>(v', off). Inr (FloatTag (Float32 v'), off)))
     | TAG_DOUBLE \<Rightarrow> Some (then_do (readDouble r byteOffset) (\<lambda>(v', off). Inr (DoubleTag v', off)))
     | TAG_BYTE_ARRAY \<Rightarrow> Some (then_do (readByteArray r byteOffset) (\<lambda>(v', off). Inr (ByteArrayTag v', off)))
     | TAG_STRING \<Rightarrow> Some (then_do (readString r byteOffset) (\<lambda>(v', off). Inr (StringTag v', off)))
     | TAG_LIST \<Rightarrow>
         (case readTagType r byteOffset of
            Inl e \<Rightarrow> Some (Inl e)
          | Inr (type', off1) \<Rightarrow>
             (case (if varint r then readVarIntZigZag r off1 else readInt r off1) of
                Inl e \<Rightarrow> Some (Inl e)
              | Inr (length', off2) \<Rightarrow> readList_loop r fuel type' 0 length' off2 []))
     | TAG_COMPOUND \<Rightarrow> readCompound_loop r fuel byteOffset []
     | TAG_INT_ARRAY \<Rightarrow> Some (then_do (readIntArray r byteOffset) (\<lambda>(v', off). Inr (IntArrayTag v', off)))
     | TAG_LONG_ARRAY \<Rightarrow> Some (then_do (readLongArray r byteOffset) (\<lambda>(v', off). Inr (LongArrayTag v', off))))"
| "readList_loop r 0 type i length' byteOffset value' = None"
| "readList_loop r (Suc fuel) type i length' byteOffset value' =
    (if i < length' then
       (case readTag r fuel type byteOffset of
          None \<Rightarrow> None
        | Some (Inl e) \<Rightarrow> Some (Inl e)
        | Some (Inr (entry, off)) \<Rightarrow> readList_loop r fuel type (i + 1) length' off (value' @ [entry]))
     else Some (Inr (ListTag value', byteOffset)))"
| "readCompound_loop r 0 byteOffset value' = None"
| "readCompound_loop r (Suc fuel) byteOffset value' =
    (case readTagType r byteOffset of
       Inl e \<Rightarrow> Some (Inl e)
     | Inr (type, off1) \<Rightarrow>
         if type = TAG_END then Some (Inr (CompoundTag value', off1))
         else (case readString r off1 of
                 Inl e \<Rightarrow> Some (Inl e)
               | Inr (name, off2) \<Rightarrow>
                  (case readTag r fuel type off2 of
                     None \<Rightarrow> None
                   | Some (Inl e) \<Rightarrow> Some (Inl e)
                   | Some (Inr (entry, off3)) \<Rightarrow>
                       readCompound_loop r fuel off3 (obj_set name entry value'))))"

subsection \<open>The root\<close>

text \<open>
  The options of \<^verbatim>\<open>readRoot\<close> (interface \<^verbatim>\<open>ReadOptions\<close>, every field given) and of
  \<^verbatim>\<open>read\<close> (\<^verbatim>\<open>Partial<ReadOptions>\<close>: \<open>None\<close> is \<^verbatim>\<open>undefined\<close>). A compression of
  \<^verbatim>\<open>null\<close> is \<open>None\<close> in the first and \<open>Some None\<close> in the second. The option types
  admit the valid values only, so the \<^verbatim>\<open>TypeError\<close> checks of \<^verbatim>\<open>read\<close> have no
  counterpart.
\<close>

record ReadOptions =
  opt_rootName :: RootNameOption
  opt_endian :: Endian
  opt_compression :: "Compression option"
  opt_bedrockLevel :: BedrockLevelOption
  opt_strict :: bool

record PartialReadOptions =
  p_rootName :: "RootNameOption option"
  p_endian :: "Endian option"
  p_compression :: "Compression option option"
  p_bedrockLevel :: "BedrockLevelOption option"
  p_strict :: "bool option"

text \<open>The external compression service: \<^verbatim>\<open>decompress(data, format)\<close>.\<close>

type_synonym decompressor = "byte list \<Rightarrow> Compression \<Rightarrow> error + byte list"

text \<open>JavaScript truthiness of the two options \<^verbatim>\<open>readRoot\<close> tests.\<close>

fun truthy_bedrockLevel :: "BedrockLevelOption \<Rightarrow> bool" where
  "truthy_bedrockLevel (BedrockLevelBool b) = b"
| "truthy_bedrockLevel (BedrockLevelNumber v) = (v \<noteq> Num 0 \<and> v \<noteq> NegZero \<and> v \<noteq> NaN)"
| "truthy_bedrockLevel BedrockLevelNull = False"

fun reads_rootName :: "RootNameOption \<Rightarrow> bool" where
  "reads_rootName (RootNameString _) = True"
| "reads_rootName (RootNameBool b) = b"
| "reads_rootName RootNameNull = False"

definition readRoot :: "decompressor \<Rightarrow> NBTReader \<Rightarrow> nat \<Rightarrow> ReadOptions \<Rightarrow> (error + NBTData) option" where
  "readRoot decompress r0 fuel options =
    (case (case opt_compression options of
             None \<Rightarrow> Inr r0
           | Some c \<Rightarrow> then_do (decompress (reader_data r0) c) (\<lambda>d. Inr (r0\<lparr>reader_data := d\<rparr>))) of
       Inl e \<Rightarrow> Some (Inl e)
     | Inr r \<Rightarrow>
      (case (if truthy_bedrockLevel (opt_bedrockLevel options)
             then then_do (readUnsignedInt r 0) (\<lambda>(_, off). then_do (readUnsignedInt r off) (\<lambda>(_, off). Inr off))
             else Inr 0) of
         Inl e \<Rightarrow> Some (Inl e)
       | Inr off0 \<Rightarrow>
        (case readTagType r off0 of
           Inl e \<Rightarrow> Some (Inl e)
         | Inr (type, off1) \<Rightarrow>
            if type \<noteq> TAG_LIST \<and> type \<noteq> TAG_COMPOUND then Some (Inl (ExpectedListOrCompound type))
            else
             (case (if reads_rootName (opt_rootName options)
                    then then_do (readString r off1) (\<lambda>(name, off). Inr (Some name, off))
                    else Inr (None, off1)) of
                Inl e \<Rightarrow> Some (Inl e)
              | Inr (rootNameV, off2) \<Rightarrow>
                 (case readTag r fuel type off2 of
                    None \<Rightarrow> None
                  | Some (Inl e) \<Rightarrow> Some (Inl e)
                  | Some (Inr (root', off3)) \<Rightarrow>
                      if opt_strict options \<and> byteLength r > off3
                      then Some (Inl (TrailingBytes off3 (byteLength r - off3)
                             \<lparr>data = root', rootName = rootNameV, endian = opt_endian options,
                              compression = None, bedrockLevel = None\<rparr>))
                      else Some (Inr \<lparr>data = root', rootName = rootNameV, endian = opt_endian options,
                             compression = Some (opt_compression options),
                             bedrockLevel = Some (opt_bedrockLevel options)\<rparr>))))))"

subsection \<open>The format probe (function read)\<close>

definition hasGzipHeader :: "NBTReader \<Rightarrow> error + bool" where
  "hasGzipHeader r = then_do (getUint r 2 0 False) (\<lambda>header. Inr (header = 0x1F8B))"

definition hasZlibHeader :: "NBTReader \<Rightarrow> error + bool" where
  "hasZlibHeader r = then_do (getUint r 1 0 False) (\<lambda>header. Inr (header = 0x78))"

definition hasBedrockLevelHeader :: "NBTReader \<Rightarrow> Endian \<Rightarrow> error + bool" where
  "hasBedrockLevelHeader r endian' =
    (if endian' \<noteq> Little \<or> byteLength r < 8 then Inr False
     else then_do (getUint r 4 4 True) (\<lambda>n. Inr (int n = byteLength r - 8)))"

text \<open>
  The labelled block \<^verbatim>\<open>compression:\<close> up to its \<^verbatim>\<open>try\<close>: the header probes either
  throw, or fix the compression and leave the block (\<open>Some\<close>), or fall through to the two
  attempts (\<open>None\<close>).
\<close>

definition probe_compression :: "NBTReader \<Rightarrow> error + Compression option" where
  "probe_compression r =
    then_do (hasGzipHeader r) (\<lambda>gzip.
      if gzip then Inr (Some Gzip)
      else then_do (hasZlibHeader r) (\<lambda>zlib. if zlib then Inr (Some Deflate) else Inr None))"

text \<open>The last part of \<^verbatim>\<open>read\<close>, reached once compression, endian and root name are fixed.\<close>

definition read_pinned ::
  "decompressor \<Rightarrow> nat \<Rightarrow> NBTReader \<Rightarrow> PartialReadOptions \<Rightarrow> Compression option \<Rightarrow> Endian \<Rightarrow> RootNameOption
     \<Rightarrow> (error + NBTData) option" where
  "read_pinned decompress fuel reader options compression' endian' rootName' =
    (case (case compression' of None \<Rightarrow> Inr () | Some c \<Rightarrow> then_do (decompress (reader_data reader) c) (\<lambda>_. Inr ())) of
       Inl e \<Rightarrow> Some (Inl e)
     | Inr _ \<Rightarrow>
        (case (case p_bedrockLevel options of
                 Some b \<Rightarrow> Inr b
               | None \<Rightarrow> then_do (hasBedrockLevelHeader reader endian') (\<lambda>b. Inr (BedrockLevelBool b))) of
           Inl e \<Rightarrow> Some (Inl e)
         | Inr bedrockLevel' \<Rightarrow>
             readRoot decompress reader fuel
               \<lparr>opt_rootName = rootName', opt_endian = endian', opt_compression = compression',
                opt_bedrockLevel = bedrockLevel',
                opt_strict = (case p_strict options of None \<Rightarrow> True | Some b \<Rightarrow> b)\<rparr>))"

definition unset :: "PartialReadOptions \<Rightarrow> nat" where
  "unset options =
    (if p_compression options = None then 1 else 0) + (if p_endian options = None then 1 else 0)
      + (if p_rootName options = None then 1 else 0)"

function read :: "decompressor \<Rightarrow> nat \<Rightarrow> byte list \<Rightarrow> PartialReadOptions \<Rightarrow> (error + NBTData) option" where
  "read decompress fuel data' options =
    (let reader = \<lparr>reader_data = data', littleEndian = (p_endian options \<noteq> Some Big),
                    varint = (p_endian options = Some LittleVarint)\<rparr>
     in case p_compression options of
          None \<Rightarrow>
            (case probe_compression reader of
               Inl e \<Rightarrow> Some (Inl e)
             | Inr None \<Rightarrow>
                (case read decompress fuel data' (options\<lparr>p_compression := Some None\<rparr>) of
                   None \<Rightarrow> None
                 | Some (Inr result) \<Rightarrow> Some (Inr result)
                 | Some (Inl error') \<Rightarrow>
                    (case read decompress fuel data' (options\<lparr>p_compression := Some (Some DeflateRaw)\<rparr>) of
                       None \<Rightarrow> None
                     | Some (Inr result) \<Rightarrow> Some (Inr result)
                     | Some (Inl _) \<Rightarrow> Some (Inl error')))
             | Inr (Some compression') \<Rightarrow>
                (case p_endian options of
                   None \<Rightarrow>
                    (case read decompress fuel data' (options\<lparr>p_endian := Some Big\<rparr>) of
                       None \<Rightarrow> None
                     | Some (Inr result) \<Rightarrow> Some (Inr result)
                     | Some (Inl error') \<Rightarrow>
                        (case read decompress fuel data' (options\<lparr>p_endian := Some Little\<rparr>) of
                           None \<Rightarrow> None
                         | Some (Inr result) \<Rightarrow> Some (Inr result)
                         | Some (Inl _) \<Rightarrow>
                            (case read decompress fuel data' (options\<lparr>p_endian := Some LittleVarint\<rparr>) of
                               None \<Rightarrow> None
                             | Some (Inr result) \<Rightarrow> Some (Inr result)
                             | Some (Inl _) \<Rightarrow> Some (Inl error'))))
                 | Some endian' \<Rightarrow>
                    (case p_rootName options of
                       None \<Rightarrow>
                        (case read decompress fuel data' (options\<lparr>p_rootName := Some (RootNameBool True)\<rparr>) of
                           None \<Rightarrow> None
                         | Some (Inr result) \<Rightarrow> Some (Inr result)
                         | Some (Inl error') \<Rightarrow>
                            (case read decompress fuel data' (options\<lparr>p_rootName := Some (RootNameBool False)\<rparr>) of
                               None \<Rightarrow> None
                             | Some (Inr result) \<Rightarrow> Some (Inr result)
                             | Some (Inl _) \<Rightarrow> Some (Inl error')))
                     | Some rootName' \<Rightarrow>
                        read_pinned decompress fuel reader options (Some compression') endian' rootName')))
        | Some compression' \<Rightarrow>
            (case p_endian options of
               None \<Rightarrow>
                (case read decompress fuel data' (options\<lparr>p_endian := Some Big\<rparr>) of
                   None \<Rightarrow> None
                 | Some (Inr result) \<Rightarrow> Some (Inr result)
                 | Some (Inl error') \<Rightarrow>
                    (case read decompress fuel data' (options\<lparr>p_endian := Some Little\<rparr>) of
                       None \<Rightarrow> None
                     | Some (Inr result) \<Rightarrow> Some (Inr result)
                     | Some (Inl _) \<Rightarrow>
                        (case read decompress fuel data' (options\<lparr>p_endian := Some LittleVarint\<rparr>) of
                           None \<Rightarrow> None
                         | Some (Inr result) \<Rightarrow> Some (Inr result)
                         | Some (Inl _) \<Rightarrow> Some (Inl error'))))
             | Some endian' \<Rightarrow>
                (case p_rootName options of
                   None \<Rightarrow>
                    (case read decompress fuel data' (options\<lparr>p_rootName := Some (RootNameBool True)\<rparr>) of
                       None \<Rightarrow> None
                     | Some (Inr result) \<Rightarrow> Some (Inr result)
                     | Some (Inl error') \<Rightarrow>
                        (case read decompress fuel data' (options\<lparr>p_rootName := Some (RootNameBool False)\<rparr>) of
                           None \<Rightarrow> None
                         | Some (Inr result) \<Rightarrow> Some (Inr result)
                         | Some (Inl _) \<Rightarrow> Some (Inl error')))
                 | Some rootName' \<Rightarrow>
                    read_pinned decompress fuel reader options compression' endian' rootName')))"
  by pat_completeness auto
termination
  by (relation "measure (\<lambda>(d, f, b, options). unset options)") (auto simp: unset_def)

section \<open>The binary writer (write.ts)\<close>

text \<open>
  The writer appends to a buffer that doubles when it is full and returns the written
  prefix, so each method is modelled by the bytes it appends. The DataView setters wrap
  their argument to the width they store.
\<close>

definition bytes_of_uint :: "bool \<Rightarrow> nat \<Rightarrow> nat \<Rightarrow> byte list" where
  "bytes_of_uint le n v =
    (let big = map (\<lambda>i. of_nat (v div 256 ^ (n - 1 - i))) [0..<n] in if le then rev big else big)"

definition writeUnsignedByte :: "nat \<Rightarrow> byte list" where
  "writeUnsignedByte v = bytes_of_uint False 1 v"

definition writeTagType :: "TAG \<Rightarrow> byte list" where
  "writeTagType type = writeUnsignedByte (id_of_TAG type)"

definition writeByte :: "int \<Rightarrow> byte list" where
  "writeByte v = [word_of_int v]"

definition writeUnsignedShort :: "bool \<Rightarrow> nat \<Rightarrow> byte list" where
  "writeUnsignedShort le v = bytes_of_uint le 2 (v mod 2 ^ 16)"

definition writeShort :: "bool \<Rightarrow> int \<Rightarrow> byte list" where
  "writeShort le v = bytes_of_uint le 2 (unat (word_of_int v :: 16 word))"

definition writeInt :: "bool \<Rightarrow> int \<Rightarrow> byte list" where
  "writeInt le v = bytes_of_uint le 4 (unat (word_of_int v :: 32 word))"

definition writeLong :: "bool \<Rightarrow> int \<Rightarrow> byte list" where
  "writeLong le v = bytes_of_uint le 8 (unat (word_of_int v :: 64 word))"

definition writeFloat :: "bool \<Rightarrow> jsnumber \<Rightarrow> byte list" where
  "writeFloat le v = bytes_of_uint le 4 (ieee_encode 23 8 v)"

definition writeDouble :: "bool \<Rightarrow> jsnumber \<Rightarrow> byte list" where
  "writeDouble le v = bytes_of_uint le 8 (ieee_encode 52 11 v)"

definition writeByteArray :: "bool \<Rightarrow> int list \<Rightarrow> byte list" where
  "writeByteArray le v = writeInt le (int (length v)) @ map word_of_int v"

definition writeString :: "bool \<Rightarrow> jsstring \<Rightarrow> byte list" where
  "writeString le v = (let entry = utf8_encode v in writeUnsignedShort le (length entry) @ entry)"

definition writeIntArray :: "bool \<Rightarrow> int list \<Rightarrow> byte list" where
  "writeIntArray le v = writeInt le (int (length v)) @ concat (map (writeInt le) v)"

definition writeLongArray :: "bool \<Rightarrow> int list \<Rightarrow> byte list" where
  "writeLongArray le v = writeInt le (int (length v)) @ concat (map (writeLong le) v)"

text \<open>
  \<^verbatim>\<open>#writeTag\<close>, with the loops of \<^verbatim>\<open>#writeList\<close> and \<^verbatim>\<open>#writeCompound\<close>. A boolean is
  written as \<^verbatim>\<open>Number(value)\<close>. A list of mixed element types throws.
\<close>

fun writeTag :: "bool \<Rightarrow> tag \<Rightarrow> error + byte list"
  and writeList_entries :: "bool \<Rightarrow> TAG \<Rightarrow> tag list \<Rightarrow> error + byte list"
  and writeCompound_entries :: "bool \<Rightarrow> (jsstring \<times> tag) list \<Rightarrow> error + byte list"
where
  "writeTag le (BooleanTag b) = Inr (writeByte (if b then 1 else 0))"
| "writeTag le (ByteTag v) = Inr (writeByte v)"
| "writeTag le (ShortTag v) = Inr (writeShort le v)"
| "writeTag le (IntTag v) = Inr (writeInt le v)"
| "writeTag le (LongTag v) = Inr (writeLong le v)"
| "writeTag le (FloatTag v) = Inr (writeFloat le v)"
| "writeTag le (DoubleTag v) = Inr (writeDouble le v)"
| "writeTag le (ByteArrayTag v) = Inr (writeByteArray le v)"
| "writeTag le (StringTag v) = Inr (writeString le v)"
| "writeTag le (ListTag v) =
    (let type = (if v \<noteq> [] then getTagType (hd v) else TAG_END)
     in case writeList_entries le type v of
          Inl e \<Rightarrow> Inl e
        | Inr entries \<Rightarrow> Inr (writeTagType type @ writeInt le (int (length v)) @ entries))"
| "writeTag le (CompoundTag v) = writeCompound_entries le v"
| "writeTag le (IntArrayTag v) = Inr (writeIntArray le v)"
| "writeTag le (LongArrayTag v) = Inr (writeLongArray le v)"
| "writeList_entries le type [] = Inr []"
| "writeList_entries le type (entry # rest) =
    (if getTagType entry \<noteq> type
     then Inl (TypeError ''Encountered unexpected item type in array, all tags in a List tag must be of the same type'')
     else case writeTag le entry of
            Inl e \<Rightarrow> Inl e
          | Inr b \<Rightarrow> (case writeList_entries le type rest of Inl e \<Rightarrow> Inl e | Inr bs \<Rightarrow> Inr (b @ bs)))"
| "writeCompound_entries le [] = Inr (writeTagType TAG_END)"
| "writeCompound_entries le ((name, entry) # rest) =
    (case writeTag le entry of
       Inl e \<Rightarrow> Inl e
     | Inr b \<Rightarrow>
        (case writeCompound_entries le rest of
           Inl e \<Rightarrow> Inl e
         | Inr bs \<Rightarrow> Inr (writeTagType (getTagType entry) @ writeString le name @ b @ bs)))"

text \<open>
  The options of \<^verbatim>\<open>write\<close> (\<open>None\<close>: \<^verbatim>\<open>undefined\<close>). This writer knows the big and
  the little dialect and refuses any other endian; its root is a compound, given here by
  its entries.
\<close>

record WriteOptions =
  w_name :: "jsstring option option"
  w_endian :: "Endian option"
  w_compression :: "Compression option option"
  w_bedrockLevel :: "int option option"

type_synonym compressor = "byte list \<Rightarrow> Compression \<Rightarrow> error + byte list"

text \<open>\<^verbatim>\<open>NBTWriter.write\<close>.\<close>

definition NBTWriter_write :: "(jsstring \<times> tag) list \<Rightarrow> jsstring option option \<Rightarrow> Endian option \<Rightarrow> error + byte list" where
  "NBTWriter_write data' name' endian' =
    (let name = (case name' of None \<Rightarrow> Some [] | Some n \<Rightarrow> n);
         endian = (case endian' of None \<Rightarrow> Big | Some e \<Rightarrow> e)
     in if endian \<noteq> Big \<and> endian \<noteq> Little then Inl (TypeError ''Endian option must be a valid endian type'')
        else let le = (endian = Little)
             in then_do (writeCompound_entries le data') (\<lambda>body.
                  Inr (writeTagType TAG_COMPOUND @ (case name of None \<Rightarrow> [] | Some n \<Rightarrow> writeString le n) @ body)))"

text \<open>The function \<^verbatim>\<open>write\<close> (named \<open>write_nbt\<close> here): the Bedrock level header and the compression around it.\<close>

definition write_nbt :: "compressor \<Rightarrow> (jsstring \<times> tag) list \<Rightarrow> WriteOptions \<Rightarrow> error + byte list" where
  "write_nbt compress data' options =
    (if w_endian options \<noteq> None \<and> w_endian options \<noteq> Some Big \<and> w_endian options \<noteq> Some Little
     then Inl (TypeError ''Endian option must be a valid endian type'')
     else then_do (NBTWriter_write data' (w_name options) (w_endian options)) (\<lambda>result.
       let result' = (case w_bedrockLevel options of
                        Some (Some version) \<Rightarrow>
                          bytes_of_uint True 4 (unat (word_of_int version :: 32 word))
                            @ bytes_of_uint True 4 (length result mod 2 ^ 32) @ result
                      | _ \<Rightarrow> result)
       in case w_compression options of
            Some (Some c) \<Rightarrow> compress result' c
          | _ \<Rightarrow> Inr result'))"

section \<open>The SNBT writer (class SNBTWriter)\<close>

text \<open>
  Numbers are printed by the template literal \<^verbatim>\<open>`${value}`\<close>. For the integer tags and
  the bigints that is the decimal numeral. For the float tags it is the platform's
  number-to-string conversion, which the writer takes as the parameter \<open>fmt\<close>.
\<close>

fun show_nat :: "nat \<Rightarrow> jsstring" where
  "show_nat n = (if n < 10 then [of_nat (48 + n)] else show_nat (n div 10) @ [of_nat (48 + n mod 10)])"

declare show_nat.simps [simp del]

definition show_int :: "int \<Rightarrow> jsstring" where
  "show_int i = (if i < 0 then 0x2D # show_nat (nat (- i)) else show_nat (nat i))"

text \<open>\<^verbatim>\<open>value.replace(/[...]/g, character => `\\${character}`)\<close> for a class of code units.\<close>

definition replace_escape :: "(16 word \<Rightarrow> bool) \<Rightarrow> jsstring \<Rightarrow> jsstring" where
  "replace_escape cls v = concat (map (\<lambda>character. if cls character then [0x5C, character] else [character]) v)"

definition snbt_writeString :: "jsstring \<Rightarrow> jsstring" where
  "snbt_writeString v =
    (let singleQuoteString = replace_escape (\<lambda>c. c = 0x27 \<or> c = 0x5C) v;
         doubleQuoteString = replace_escape (\<lambda>c. c = 0x22 \<or> c = 0x5C) v
     in if length singleQuoteString < length doubleQuoteString
        then [0x27] @ singleQuoteString @ [0x27]
        else [0x22] @ doubleQuoteString @ [0x22])"

text \<open>The class \<^verbatim>\<open>[0-9a-z_\-.+]\<close> under the flag \<^verbatim>\<open>i\<close>.\<close>

definition is_unquoted_char :: "16 word \<Rightarrow> bool" where
  "is_unquoted_char c =
    (is_digit c \<or> (0x61 \<le> c \<and> c \<le> 0x7A) \<or> (0x41 \<le> c \<and> c \<le> 0x5A)
      \<or> c = 0x5F \<or> c = 0x2D \<or> c = 0x2E \<or> c = 0x2B)"

text \<open>\<^verbatim>\<open>/^[0-9a-z_\-.+]+$/i.test(key)\<close>.\<close>

definition is_unquoted_key :: "jsstring \<Rightarrow> bool" where
  "is_unquoted_key key = (key \<noteq> [] \<and> list_all is_unquoted_char key)"

definition join :: "jsstring \<Rightarrow> jsstring list \<Rightarrow> jsstring" where
  "join sep xs = (case xs of [] \<Rightarrow> [] | x # rest \<Rightarrow> x @ concat (map (\<lambda>y. sep @ y) rest))"

definition repeat :: "jsstring \<Rightarrow> nat \<Rightarrow> jsstring" where
  "repeat v n = concat (replicate n v)"

definition is_indented_type :: "TAG \<Rightarrow> bool" where
  "is_indented_type type = (type \<in> set [TAG_BYTE_ARRAY, TAG_LIST, TAG_COMPOUND, TAG_INT_ARRAY, TAG_LONG_ARRAY])"

text \<open>
  \<^verbatim>\<open>#writeTag\<close> at indentation level \<open>level\<close>; \<open>snbt_writeTags\<close> and
  \<open>snbt_writeEntries\<close> are the \<^verbatim>\<open>map\<close> calls of \<^verbatim>\<open>#writeList\<close> and
  \<^verbatim>\<open>#writeCompound\<close>, which write each child one level deeper.
\<close>

fun snbt_writeTag :: "(jsnumber \<Rightarrow> jsstring) \<Rightarrow> jsstring \<Rightarrow> nat \<Rightarrow> tag \<Rightarrow> jsstring"
  and snbt_writeTags :: "(jsnumber \<Rightarrow> jsstring) \<Rightarrow> jsstring \<Rightarrow> nat \<Rightarrow> bool \<Rightarrow> tag list \<Rightarrow> jsstring list"
  and snbt_writeEntries :: "(jsnumber \<Rightarrow> jsstring) \<Rightarrow> jsstring \<Rightarrow> nat \<Rightarrow> (jsstring \<times> tag) list \<Rightarrow> jsstring list"
where
  "snbt_writeTag fmt space level (BooleanTag b) = (if b then str ''true'' else str ''false'')"
| "snbt_writeTag fmt space level (ByteTag v) = show_int v @ str ''b''"
| "snbt_writeTag fmt space level (ShortTag v) = show_int v @ str ''s''"
| "snbt_writeTag fmt space level (IntTag v) = show_int v"
| "snbt_writeTag fmt space level (LongTag v) = show_int v @ str ''l''"
| "snbt_writeTag fmt space level (FloatTag v) = fmt v @ str ''f''"
| "snbt_writeTag fmt space level (DoubleTag v) = fmt v @ str ''d''"
| "snbt_writeTag fmt space level (ByteArrayTag v) =
    str ''[B;'' @ join (str '','') (map (\<lambda>entry. show_int (Int8 entry) @ str ''b'') v) @ str '']''"
| "snbt_writeTag fmt space level (StringTag v) = snbt_writeString v"
| "snbt_writeTag fmt space level (ListTag v) =
    (let fancy = (space \<noteq> []);
         type = (if v \<noteq> [] then getTagType (hd v) else TAG_END);
         isIndentedList = (fancy \<and> is_indented_type type)
     in str ''['' @ join (str '','' @ (if fancy \<and> \<not> isIndentedList then str '' '' else []))
                      (snbt_writeTags fmt space level isIndentedList v)
        @ (if isIndentedList then str [CHR 0x0A] @ repeat space (level - 1) else []) @ str '']'')"
| "snbt_writeTag fmt space level (CompoundTag v) =
    (let fancy = (space \<noteq> [])
     in str ''{'' @ join (str '','') (snbt_writeEntries fmt space level v)
        @ (if fancy \<and> v \<noteq> [] then str [CHR 0x0A] @ repeat space (level - 1) else []) @ str ''}'')"
| "snbt_writeTag fmt space level (IntArrayTag v) =
    str ''[I;'' @ join (str '','') (map (\<lambda>entry. show_int (Int32 entry)) v) @ str '']''"
| "snbt_writeTag fmt space level (LongArrayTag v) =
    str ''[L;'' @ join (str '','') (map (\<lambda>entry. show_int entry @ str ''l'') v) @ str '']''"
| "snbt_writeTags fmt space level isIndentedList [] = []"
| "snbt_writeTags fmt space level isIndentedList (entry # rest) =
    ((if isIndentedList then str [CHR 0x0A] @ repeat space level else [])
       @ snbt_writeTag fmt space (level + 1) entry)
    # snbt_writeTags fmt space level isIndentedList rest"
| "snbt_writeEntries fmt space level [] = []"
| "snbt_writeEntries fmt space level ((key, v) # rest) =
    ((if space \<noteq> [] then str [CHR 0x0A] @ repeat space level else [])
       @ (if is_unquoted_key key then key else snbt_writeString key)
       @ str '':'' @ (if space \<noteq> [] then str '' '' else [])
       @ snbt_writeTag fmt space (level + 1) v)
    # snbt_writeEntries fmt space level rest"

text \<open>
  \<^verbatim>\<open>stringify(data, { space })\<close> and \<^verbatim>\<open>SNBTWriter.write\<close>: the root is a compound,
  given by its entries; \<open>space\<close> is a string or a count of blanks, the empty string by
  default.
\<close>

datatype Space = SpaceString jsstring | SpaceNumber nat

definition stringify :: "(jsnumber \<Rightarrow> jsstring) \<Rightarrow> Space \<Rightarrow> (jsstring \<times> tag) list \<Rightarrow> jsstring" where
  "stringify fmt space data' =
    (let space' = (case space of SpaceNumber n \<Rightarrow> repeat (str '' '') n | SpaceString v \<Rightarrow> v)
     in snbt_writeTag fmt space' 1 (CompoundTag data'))"

section \<open>The SNBT parser (class SNBTReader)\<close>

text \<open>
  The parser is a cursor \<^verbatim>\<open>#byteOffset\<close> over the string \<^verbatim>\<open>#data\<close>; the cursor only
  moves forward. \<^verbatim>\<open>Number(value)\<close> on a float literal is the platform's
  string-to-number conversion, which the parser takes as the parameter \<open>num\<close>.
\<close>

text \<open>\<^verbatim>\<open>/\s+/.test(c)\<close> for a single code unit.\<close>

definition is_whitespace :: "16 word \<Rightarrow> bool" where
  "is_whitespace c =
    ((0x09 \<le> c \<and> c \<le> 0x0D) \<or> c = 0x20 \<or> c = 0xA0 \<or> c = 0x1680 \<or> (0x2000 \<le> c \<and> c \<le> 0x200A)
      \<or> c = 0x2028 \<or> c = 0x2029 \<or> c = 0x202F \<or> c = 0x205F \<or> c = 0x3000 \<or> c = 0xFEFF)"

definition snbt_allocate :: "jsstring \<Rightarrow> nat \<Rightarrow> nat \<Rightarrow> bool" where
  "snbt_allocate data' byteOffset n = (byteOffset + n \<le> length data')"

text \<open>\<^verbatim>\<open>this.#data[i]\<close>: \<^verbatim>\<open>undefined\<close> (here \<open>None\<close>) past the end.\<close>

definition peek :: "jsstring \<Rightarrow> nat \<Rightarrow> 16 word option" where
  "peek data' i = (if i < length data' then Some (data' ! i) else None)"

definition skipWhitespace :: "jsstring \<Rightarrow> nat \<Rightarrow> nat" where
  "skipWhitespace data' byteOffset = byteOffset + length (takeWhile is_whitespace (drop byteOffset data'))"

definition skipSeperator :: "jsstring \<Rightarrow> nat \<Rightarrow> bool \<times> nat" where
  "skipSeperator data' byteOffset =
    (let off = skipWhitespace data' byteOffset
     in if \<not> snbt_allocate data' off 1 \<or> peek data' off \<noteq> Some 0x2C then (False, off)
        else (True, skipWhitespace data' (off + 1)))"

definition expect :: "jsstring \<Rightarrow> 16 word \<Rightarrow> nat \<Rightarrow> error + nat" where
  "expect data' character byteOffset =
    (if \<not> snbt_allocate data' byteOffset 1 \<or> peek data' byteOffset \<noteq> Some character
     then Inl (SyntaxError ''Expected character'')
     else Inr (byteOffset + 1))"

subsection \<open>Strings\<close>

definition readUnquotedString :: "jsstring \<Rightarrow> nat \<Rightarrow> (jsstring \<times> nat) option" where
  "readUnquotedString data' byteOffset =
    (let m = takeWhile is_unquoted_char (drop byteOffset data')
     in if m = [] then None else Some (m, byteOffset + length m))"

definition slice :: "jsstring \<Rightarrow> nat \<Rightarrow> nat \<Rightarrow> jsstring" where
  "slice data' start end' = take (end' - start) (drop start data')"

text \<open>
  The loop of \<^verbatim>\<open>#readQuotedString\<close>: \<open>string\<close> is what has been unescaped so far and
  \<open>lastPos\<close> is where the next plain run starts.
\<close>

function readQuotedString_loop ::
  "jsstring \<Rightarrow> 16 word \<Rightarrow> nat \<Rightarrow> jsstring \<Rightarrow> nat \<Rightarrow> error + jsstring \<times> nat" where
  "readQuotedString_loop data' quoteChar lastPos string byteOffset =
    (if snbt_allocate data' byteOffset 1 then
       (let char = data' ! byteOffset; off = byteOffset + 1
        in if char = 0x5C then
             (if \<not> snbt_allocate data' off 1 then Inl (SyntaxError ''Unexpected end while reading escape sequence'')
              else let escapeChar = data' ! off
                   in if escapeChar \<noteq> quoteChar \<and> escapeChar \<noteq> 0x5C
                      then Inl (SyntaxError ''Invalid escape character'')
                      else readQuotedString_loop data' quoteChar (off + 1)
                             (string @ slice data' lastPos (off - 1) @ [escapeChar]) (off + 1))
           else if char = quoteChar then Inr (string @ slice data' lastPos (off - 1), off)
           else readQuotedString_loop data' quoteChar lastPos string off)
     else Inl (SyntaxError ''Missing end quote''))"
  by pat_completeness auto
termination
  by (relation "measure (\<lambda>(d, q, l, s, off). length d - off)") (auto simp: snbt_allocate_def)

declare readQuotedString_loop.simps [simp del]

definition readQuotedString :: "jsstring \<Rightarrow> 16 word \<Rightarrow> nat \<Rightarrow> error + jsstring \<times> nat" where
  "readQuotedString data' quoteChar byteOffset =
    readQuotedString_loop data' quoteChar (byteOffset + 1) [] (byteOffset + 1)"

text \<open>\<^verbatim>\<open>#readString\<close>, for keys: \<open>None\<close> is the \<^verbatim>\<open>null\<close> of an unquoted key that matches nothing.\<close>

definition snbt_readString :: "jsstring \<Rightarrow> nat \<Rightarrow> error + jsstring option \<times> nat" where
  "snbt_readString data' byteOffset =
    (let char = peek data' byteOffset
     in if char = Some 0x22 \<or> char = Some 0x27
        then then_do (readQuotedString data' (the char) byteOffset) (\<lambda>(v, off). Inr (Some v, off))
        else (case readUnquotedString data' byteOffset of
                None \<Rightarrow> Inr (None, byteOffset)
              | Some (v, off) \<Rightarrow> Inr (Some v, off)))"

subsection \<open>Unquoted tokens\<close>

text \<open>
  The three patterns, each on a whole token. In both numeric patterns the second group is
  one optional letter at the end, which the first group cannot end with, so the groups
  are the token without its last letter and that letter.

  \<^verbatim>\<open>INTEGER_PATTERN = /^([-+]?(?:0|[1-9][0-9]*))([bls]?)$/i\<close>
\<close>

definition strip_sign :: "jsstring \<Rightarrow> jsstring" where
  "strip_sign v = (case v of c # rest \<Rightarrow> if c = 0x2D \<or> c = 0x2B then rest else v | [] \<Rightarrow> [])"

definition is_integer_body :: "jsstring \<Rightarrow> bool" where
  "is_integer_body v =
    (let ds = strip_sign v in ds = [0x30] \<or> (ds \<noteq> [] \<and> list_all is_digit ds \<and> hd ds \<noteq> 0x30))"

definition split_suffix :: "(16 word \<Rightarrow> bool) \<Rightarrow> jsstring \<Rightarrow> jsstring \<times> jsstring" where
  "split_suffix cls v = (if v \<noteq> [] \<and> cls (last v) then (butlast v, [last v]) else (v, []))"

definition match_integer :: "jsstring \<Rightarrow> (jsstring \<times> jsstring) option" where
  "match_integer v =
    (let (value', suffix) = split_suffix (\<lambda>c. c \<in> set (str ''blsBLS'')) v
     in if is_integer_body value' then Some (value', suffix) else None)"

text \<open>\<^verbatim>\<open>FLOAT_PATTERN = /^([-+]?(?:[0-9]+[.]?|[0-9]*[.][0-9]+)(?:e[-+]?[0-9]+)?)([df]?)$/i\<close>\<close>

definition is_float_body :: "jsstring \<Rightarrow> bool" where
  "is_float_body v =
    (let ds = strip_sign v;
         mantissa = takeWhile (\<lambda>c. c \<noteq> 0x65 \<and> c \<noteq> 0x45) ds;
         rest = dropWhile (\<lambda>c. c \<noteq> 0x65 \<and> c \<noteq> 0x45) ds;
         exponent = strip_sign (tl rest)
     in list_all (\<lambda>c. is_digit c \<or> c = 0x2E) mantissa \<and> count_list mantissa 0x2E \<le> 1
        \<and> list_ex is_digit mantissa
        \<and> (rest = [] \<or> (exponent \<noteq> [] \<and> list_all is_digit exponent)))"

definition match_float :: "jsstring \<Rightarrow> (jsstring \<times> jsstring) option" where
  "match_float v =
    (let (value', suffix) = split_suffix (\<lambda>c. c \<in> set (str ''dfDF'')) v
     in if is_float_body value' then Some (value', suffix) else None)"

text \<open>\<^verbatim>\<open>BOOLEAN_PATTERN = /^(true|false)$/\<close>\<close>

definition test_boolean :: "jsstring \<Rightarrow> bool" where
  "test_boolean v = (v = str ''true'' \<or> v = str ''false'')"

text \<open>\<^verbatim>\<open>Boolean(string)\<close>: a string is truthy unless it is empty.\<close>

definition Boolean_of_string :: "jsstring \<Rightarrow> bool" where
  "Boolean_of_string v = (v \<noteq> [])"

text \<open>
  \<^verbatim>\<open>Number(value)\<close> and \<^verbatim>\<open>BigInt(value)\<close> on the first group of the integer pattern. A
  number holds an integer exactly up to \<open>2^53\<close> and the nearest double beyond.
\<close>

definition integer_of_literal :: "jsstring \<Rightarrow> int" where
  "integer_of_literal v =
    (case v of
       c # rest \<Rightarrow> if c = 0x2D then - int (digits_value rest)
                   else if c = 0x2B then int (digits_value rest) else int (digits_value v)
     | [] \<Rightarrow> 0)"

definition Number_of_integer :: "int \<Rightarrow> jsnumber" where
  "Number_of_integer i =
    (if \<bar>i\<bar> \<le> 2 ^ 53 then Num (of_int i) else ieee_decode 52 11 (ieee_encode 52 11 (Num (of_int i))))"

fun snbt_readInteger :: "jsstring \<times> jsstring \<Rightarrow> tag" where
  "snbt_readInteger (value', suffix) =
    (if suffix = str ''b'' \<or> suffix = str ''B''
     then ByteTag (valueOf_int (new_Byte (Number_of_integer (integer_of_literal value'))))
     else if suffix = str ''s'' \<or> suffix = str ''S''
     then ShortTag (valueOf_int (new_Short (Number_of_integer (integer_of_literal value'))))
     else if suffix = str ''l'' \<or> suffix = str ''L''
     then LongTag (integer_of_literal value')
     else IntTag (valueOf_int (new_Int (Number_of_integer (integer_of_literal value')))))"

fun snbt_readFloat :: "(jsstring \<Rightarrow> jsnumber) \<Rightarrow> jsstring \<times> jsstring \<Rightarrow> tag" where
  "snbt_readFloat num (value', suffix) =
    (if suffix = str ''f'' \<or> suffix = str ''F'' then FloatTag (Float32 (num value'))
     else DoubleTag (num value'))"

text \<open>
  The \<^verbatim>\<open>try\<close> block of \<^verbatim>\<open>#readTag\<close> on an unquoted token. Nothing in it throws on a
  token of one of the patterns, so its \<^verbatim>\<open>catch\<close> has no counterpart.
\<close>

definition read_token :: "(jsstring \<Rightarrow> jsnumber) \<Rightarrow> jsstring \<Rightarrow> tag" where
  "read_token num string =
    (case match_integer string of
       Some m \<Rightarrow> snbt_readInteger m
     | None \<Rightarrow>
        (case match_float string of
           Some m \<Rightarrow> snbt_readFloat num m
         | None \<Rightarrow>
            if test_boolean string then BooleanTag (Boolean_of_string string) else StringTag string))"

subsection \<open>Typed arrays\<close>

text \<open>
  The elements of a typed array literal are read as tags and then stored into an
  Int8Array, an Int32Array or a BigInt64Array, which converts what it is given: a number
  is wrapped to the element width, a bigint cannot be stored in a number array nor a
  number in a bigint array, a string is first converted with \<^verbatim>\<open>Number\<close>. The conversions
  of a list, a compound or an array used as an element, and of a string stored as a
  bigint, are not modelled.
\<close>

fun element_number :: "(jsstring \<Rightarrow> jsnumber) \<Rightarrow> tag \<Rightarrow> error + jsnumber" where
  "element_number num (BooleanTag b) = Inr (Num (if b then 1 else 0))"
| "element_number num (ByteTag v) = Inr (Num (of_int v))"
| "element_number num (ShortTag v) = Inr (Num (of_int v))"
| "element_number num (IntTag v) = Inr (Num (of_int v))"
| "element_number num (LongTag v) = Inl (TypeError ''Cannot convert a BigInt value to a number'')"
| "element_number num (FloatTag v) = Inr v"
| "element_number num (DoubleTag v) = Inr v"
| "element_number num (StringTag v) = Inr (num v)"
| "element_number num _ = Inl NotModelled"

fun element_bigint :: "tag \<Rightarrow> error + int" where
  "element_bigint (LongTag v) = Inr (signed_take_bit 63 v)"
| "element_bigint (BooleanTag b) = Inr (if b then 1 else 0)"
| "element_bigint (ByteTag v) = Inl (TypeError ''Cannot convert a number to a BigInt'')"
| "element_bigint (ShortTag v) = Inl (TypeError ''Cannot convert a number to a BigInt'')"
| "element_bigint (IntTag v) = Inl (TypeError ''Cannot convert a number to a BigInt'')"
| "element_bigint (FloatTag v) = Inl (TypeError ''Cannot convert a number to a BigInt'')"
| "element_bigint (DoubleTag v) = Inl (TypeError ''Cannot convert a number to a BigInt'')"
| "element_bigint _ = Inl NotModelled"

fun elements :: "(tag \<Rightarrow> error + int) \<Rightarrow> tag list \<Rightarrow> error + int list" where
  "elements f [] = Inr []"
| "elements f (t # ts) =
    (case f t of Inl e \<Rightarrow> Inl e
     | Inr v \<Rightarrow> (case elements f ts of Inl e \<Rightarrow> Inl e | Inr vs \<Rightarrow> Inr (v # vs)))"

definition snbt_readByteArray :: "(jsstring \<Rightarrow> jsnumber) \<Rightarrow> tag list \<Rightarrow> error + tag" where
  "snbt_readByteArray num tags =
    then_do (elements (\<lambda>t. then_do (element_number num t) (\<lambda>v. Inr (sint (ucast (ToInt32 v) :: 8 word)))) tags)
      (\<lambda>vs. Inr (ByteArrayTag vs))"

definition snbt_readIntArray :: "(jsstring \<Rightarrow> jsnumber) \<Rightarrow> tag list \<Rightarrow> error + tag" where
  "snbt_readIntArray num tags =
    then_do (elements (\<lambda>t. then_do (element_number num t) (\<lambda>v. Inr (sint (ToInt32 v)))) tags)
      (\<lambda>vs. Inr (IntArrayTag vs))"

definition snbt_readLongArray :: "tag list \<Rightarrow> error + tag" where
  "snbt_readLongArray tags = then_do (elements element_bigint tags) (\<lambda>vs. Inr (LongArrayTag vs))"

subsection \<open>Tags\<close>

text \<open>
  The opening of \<^verbatim>\<open>#readSomeList\<close>: after \<^verbatim>\<open>[\<close>, a second character \<^verbatim>\<open>;\<close> makes the
  first one the array type.
\<close>

definition readListType :: "jsstring \<Rightarrow> nat \<Rightarrow> error + TAG \<times> nat" where
  "readListType data' byteOffset =
    (if snbt_allocate data' byteOffset 2 \<and> peek data' (byteOffset + 1) = Some 0x3B then
       (let char = peek data' byteOffset
        in if char = Some 0x42 then Inr (TAG_BYTE_ARRAY, byteOffset + 2)
           else if char = Some 0x49 then Inr (TAG_INT_ARRAY, byteOffset + 2)
           else if char = Some 0x4C then Inr (TAG_LONG_ARRAY, byteOffset + 2)
           else Inl (SyntaxError ''Invalid array type''))
     else Inr (TAG_LIST, byteOffset))"

definition finishList :: "(jsstring \<Rightarrow> jsnumber) \<Rightarrow> jsstring \<Rightarrow> TAG \<Rightarrow> tag list \<Rightarrow> nat \<Rightarrow> error + tag \<times> nat" where
  "finishList num data' tagType tags byteOffset =
    (if \<not> snbt_allocate data' byteOffset 1 then Inl (SyntaxError ''Expected tag or closing bracket'')
     else then_do (expect data' 0x5D byteOffset) (\<lambda>off.
       then_do (if tagType = TAG_BYTE_ARRAY then snbt_readByteArray num tags
                else if tagType = TAG_INT_ARRAY then snbt_readIntArray num tags
                else if tagType = TAG_LONG_ARRAY then snbt_readLongArray tags
                else Inr (ListTag tags))
         (\<lambda>v. Inr (v, off))))"

definition finishCompound :: "jsstring \<Rightarrow> (jsstring \<times> tag) list \<Rightarrow> nat \<Rightarrow> error + tag \<times> nat" where
  "finishCompound data' tag' byteOffset =
    (if \<not> snbt_allocate data' byteOffset 1 then Inl (SyntaxError ''Expected key-value pair or closing brace'')
     else Inr (CompoundTag tag', byteOffset + 1))"

text \<open>
  \<^verbatim>\<open>#readTag\<close>, \<^verbatim>\<open>#readSomeList\<close> and \<^verbatim>\<open>#readCompoundTag\<close> with their loops. They call
  one another; the second argument is fuel, one unit for each call and each loop
  iteration, and \<open>None\<close> says it ran out.
\<close>

fun snbt_readTag :: "(jsstring \<Rightarrow> jsnumber) \<Rightarrow> nat \<Rightarrow> jsstring \<Rightarrow> nat \<Rightarrow> (error + tag \<times> nat) option"
  and readSomeList_loop ::
    "(jsstring \<Rightarrow> jsnumber) \<Rightarrow> nat \<Rightarrow> jsstring \<Rightarrow> TAG \<Rightarrow> tag list \<Rightarrow> nat \<Rightarrow> (error + tag \<times> nat) option"
  and readCompoundTag_loop ::
    "(jsstring \<Rightarrow> jsnumber) \<Rightarrow> nat \<Rightarrow> jsstring \<Rightarrow> (jsstring \<times> tag) list \<Rightarrow> nat \<Rightarrow> (error + tag \<times> nat) option"
where
  "snbt_readTag num 0 data' byteOffset = None"
| "snbt_readTag num (Suc fuel) data' byteOffset =
    (let off = skipWhitespace data' byteOffset
     in if \<not> snbt_allocate data' off 1 then Some (Inl (SyntaxError ''Expected tag''))
        else let char = data' ! off
             in if char = 0x7B then
                  (case expect data' 0x7B (skipWhitespace data' off) of
                     Inl e \<Rightarrow> Some (Inl e)
                   | Inr off1 \<Rightarrow> readCompoundTag_loop num fuel data' [] off1)
                else if char = 0x5B then
                  (case expect data' 0x5B off of
                     Inl e \<Rightarrow> Some (Inl e)
                   | Inr off1 \<Rightarrow>
                      (case readListType data' off1 of
                         Inl e \<Rightarrow> Some (Inl e)
                       | Inr (tagType, off2) \<Rightarrow>
                           readSomeList_loop num fuel data' tagType [] (skipWhitespace data' off2)))
                else if char = 0x22 \<or> char = 0x27 then
                  Some (then_do (readQuotedString data' char off) (\<lambda>(v, off). Inr (StringTag v, off)))
                else (case readUnquotedString data' off of
                        None \<Rightarrow> Some (Inl (SyntaxError ''Unexpected character while reading tag''))
                      | Some (string, off1) \<Rightarrow> Some (Inr (read_token num string, off1))))"
| "readSomeList_loop num 0 data' tagType tags byteOffset = None"
| "readSomeList_loop num (Suc fuel) data' tagType tags byteOffset =
    (if snbt_allocate data' byteOffset 1 \<and> peek data' byteOffset \<noteq> Some 0x5D then
       (case snbt_readTag num fuel data' byteOffset of
          None \<Rightarrow> None
        | Some (Inl e) \<Rightarrow> Some (Inl e)
        | Some (Inr (tag', off)) \<Rightarrow>
           (case skipSeperator data' off of
              (True, off1) \<Rightarrow> readSomeList_loop num fuel data' tagType (tags @ [tag']) off1
            | (False, off1) \<Rightarrow>
                if peek data' off1 \<noteq> Some 0x5D then Some (Inl (SyntaxError ''Unexpected character at end of tag''))
                else Some (finishList num data' tagType (tags @ [tag']) off1)))
     else Some (finishList num data' tagType tags byteOffset))"
| "readCompoundTag_loop num 0 data' tag' byteOffset = None"
| "readCompoundTag_loop num (Suc fuel) data' tag' byteOffset =
    (if snbt_allocate data' byteOffset 1 \<and> peek data' byteOffset \<noteq> Some 0x7D then
       (let off = skipWhitespace data' byteOffset
        in if peek data' off = Some 0x7D then Some (finishCompound data' tag' off)
           else
            (case snbt_readString data' off of
               Inl e \<Rightarrow> Some (Inl e)
             | Inr (None, off1) \<Rightarrow> Some (Inl (SyntaxError ''Unexpected character while expecting key-value pair''))
             | Inr (Some key, off1) \<Rightarrow>
                if key = [] then Some (Inl (SyntaxError ''Key cannot be empty''))
                else
                 (case expect data' 0x3A (skipWhitespace data' off1) of
                    Inl e \<Rightarrow> Some (Inl e)
                  | Inr off2 \<Rightarrow>
                     (case snbt_readTag num fuel data' off2 of
                        None \<Rightarrow> None
                      | Some (Inl e) \<Rightarrow> Some (Inl e)
                      | Some (Inr (v, off3)) \<Rightarrow>
                         (case skipSeperator data' off3 of
                            (True, off4) \<Rightarrow> readCompoundTag_loop num fuel data' (obj_set key v tag') off4
                          | (False, off4) \<Rightarrow>
                              if peek data' off4 \<noteq> Some 0x7D
                              then Some (Inl (SyntaxError ''Unexpected character at end of tag''))
                              else Some (finishCompound data' (obj_set key v tag') off4))))))
     else Some (finishCompound data' tag' byteOffset))"

text \<open>
  \<^verbatim>\<open>SNBTReader.read\<close> and \<^verbatim>\<open>parse\<close>: the root is read by \<^verbatim>\<open>#readCompoundTag\<close>, and
  anything but white space after it is an error (the root is a compound, so the first of
  the two messages is the one thrown).
\<close>

definition parse :: "(jsstring \<Rightarrow> jsnumber) \<Rightarrow> nat \<Rightarrow> jsstring \<Rightarrow> (error + tag) option" where
  "parse num fuel data' =
    (case expect data' 0x7B (skipWhitespace data' 0) of
       Inl e \<Rightarrow> Some (Inl e)
     | Inr off \<Rightarrow>
        (case readCompoundTag_loop num fuel data' [] off of
           None \<Rightarrow> None
         | Some (Inl e) \<Rightarrow> Some (Inl e)
         | Some (Inr (tag', off1)) \<Rightarrow>
            if snbt_allocate data' (skipWhitespace data' off1) 1
            then Some (Inl (SyntaxError ''Unexpected non-whitespace character after tag''))
            else Some (Inr tag')))"

section \<open>Results on the numeric primitives\<close>

subsection \<open>Shifts and truncation\<close>

lemma and_one_cases: "(n AND 1 :: 32 word) = (if bit n 0 then 1 else 0)"
  by (simp add: and_one_eq mod_2_eq_odd bit_0)

lemma sign_mask: "js_sar (js_shl n 63) 63 = (if bit n 0 then - 1 else 0)"
  unfolding js_shl_def js_sar_def
  by (rule bit_word_eqI) (auto simp: bit_signed_drop_bit_iff bit_push_bit_iff)

lemma bit_sign_bit: "bit (js_shl 1 63) k \<longleftrightarrow> k = 31"
proof -
  have "(63::nat) mod 32 = 31" by simp
  then have "bit (js_shl 1 63) k \<longleftrightarrow> bit (push_bit 31 (1::32 word)) k"
    by (simp only: js_shl_def)
  also have "\<dots> \<longleftrightarrow> k = 31"
    by (simp only: bit_push_bit_iff bit_1_iff possible_bit_word) auto
  finally show ?thesis .
qed

lemma sint_sar_shl:
  assumes "k < 32" "0 < k"
  shows "sint (js_sar (js_shl w k) k) = signed_take_bit (31 - k) (sint w)"
proof (rule bit_eqI)
  fix n
  consider "n < 31 - k" | "n = 31 - k" | "31 - k < n" by linarith
  then show "bit (sint (js_sar (js_shl (w :: 32 word) k) k)) n = bit (signed_take_bit (31 - k) (sint w)) n"
    using assms unfolding js_sar_def js_shl_def
    by cases (auto simp: bit_sint_iff bit_signed_drop_bit_iff bit_push_bit_iff
        bit_signed_take_bit_iff min_def)
qed

lemma number_of_int32_eq: "sint w = i \<Longrightarrow> number_of_int32 w = Num (of_int i)"
  by (simp only: number_of_int32_def)

text \<open>
  The reference formula of the spec, \<^verbatim>\<open>(n >> 1) ^ -(n & 1)\<close> with a logical right
  shift: on 32-bit words, and on unbounded integers.
\<close>

definition zigzag_formula32 :: "32 word \<Rightarrow> 32 word" where
  "zigzag_formula32 n = drop_bit 1 n XOR - (n AND 1)"

definition zigzag_formula :: "int \<Rightarrow> int" where
  "zigzag_formula n = drop_bit 1 n XOR - (n AND 1)"

text \<open>
  The value a varint assembles from its bytes: the low seven bits of each byte, the
  first byte lowest, each group seven bits above the one before. The int reader shifts
  with JavaScript's 32-bit \<^verbatim>\<open><<\<close>, the long reader on bigints. A varint is a run of
  bytes with the high bit set, closed by one byte without it.
\<close>

fun assembled32 :: "nat \<Rightarrow> byte list \<Rightarrow> 32 word" where
  "assembled32 shift [] = 0"
| "assembled32 shift (b # bs) = js_shl (ucast b AND 0x7F) shift OR assembled32 (shift + 7) bs"

fun assembled :: "nat \<Rightarrow> byte list \<Rightarrow> int" where
  "assembled shift [] = 0"
| "assembled shift (b # bs) = push_bit shift (uint b AND 0x7F) OR assembled (shift + 7) bs"

fun is_varint :: "byte list \<Rightarrow> bool" where
  "is_varint [] = False"
| "is_varint [b] = (\<not> bit b 7)"
| "is_varint (b # bs) = (bit b 7 \<and> is_varint bs)"

text \<open>
  The int decoder's expression is the reference formula on every 32-bit word.
\<close>

lemma zigzag_int_formula: "zigzag_int n = zigzag_formula32 n"
proof (rule bit_word_eqI)
  fix k assume "k < LENGTH(32)"
  then consider "k < 31" | "k = 31" by fastforce
  then show "bit (zigzag_int n) k = bit (zigzag_formula32 n) k"
  proof cases
    case 1
    then show ?thesis
      unfolding zigzag_int_def zigzag_formula32_def sign_mask and_one_cases
      by (auto simp: js_sar_def bit_sign_bit bit_xor_iff bit_and_iff bit_drop_bit_eq
          bit_signed_drop_bit_iff bit_not_iff simp flip: not_eq_complement)
  next
    case 2
    have "\<not> bit n 32" by (auto dest: bit_imp_le_length)
    then show ?thesis using 2
      unfolding zigzag_int_def zigzag_formula32_def sign_mask and_one_cases
      by (auto simp: js_sar_def bit_sign_bit bit_xor_iff bit_and_iff bit_drop_bit_eq
          bit_signed_drop_bit_iff bit_not_iff simp flip: not_eq_complement)
  qed
qed

lemma drop_advance1': "drop n xs = c # rest \<Longrightarrow> drop (Suc n) xs = rest"
  by (metis drop_Suc tl_drop list.sel(3))

lemma readByte_at:
  assumes "0 \<le> off" "drop (nat off) (reader_data r) = b # rest"
  shows "readByte r off = Inr (sint b, off + 1)"
proof -
  have len: "nat off < length (reader_data r)"
    using assms(2) by (metis drop_all list.distinct(1) not_le)
  have "take (Suc 0) (drop (nat off) (reader_data r)) = [b]" using assms(2) by simp
  moreover have "(word_of_nat (unat b) :: 8 word) = b" by simp
  ultimately show ?thesis using assms(1) len
    by (simp add: readByte_def then_do_def allocate_def byteLength_def getInt8_def getUint_def
        view_bytes_def uint_of_bytes_def)
qed

lemma allocate_at:
  assumes "0 \<le> off" "drop (nat off) (reader_data r) = b # rest"
  shows "allocate r off 1 = Inr ()"
proof -
  have len: "nat off < length (reader_data r)"
    using assms(2) by (metis drop_all list.distinct(1) not_le)
  then show ?thesis using assms(1) by (simp add: allocate_def byteLength_def)
qed

lemma mask7_word: "(x :: 32 word) AND 0x7F = take_bit 7 x"
  by (simp add: take_bit_eq_mask mask_eq_exp_minus_1)

lemma mask7_int: "(x :: int) AND 0x7F = take_bit 7 x"
  by (simp add: take_bit_eq_mask mask_eq_exp_minus_1)

lemma group32: "(scast (b :: byte) AND 0x7F :: 32 word) = ucast b AND 0x7F"
  unfolding mask7_word
  by (rule bit_word_eqI) (auto simp: bit_take_bit_iff bit_signed_iff bit_ucast_iff min_def)

lemma group: "sint (b :: byte) AND 0x7F = uint b AND 0x7F"
  unfolding mask7_int
  by (rule bit_eqI) (auto simp: bit_take_bit_iff bit_sint_iff bit_uint_iff)

lemma more32: "(scast (b :: byte) AND (0x80 :: 32 word) = 0) = (\<not> bit b 7)"
proof -
  have "(0x80 :: 32 word) = 2 ^ 7" by simp
  then have "(scast b AND (0x80 :: 32 word) = 0) = (\<not> bit (scast b :: 32 word) 7)"
    by (simp only: and_exp_eq_0_iff_not_bit)
  also have "\<dots> = (\<not> bit b 7)" by (simp add: bit_signed_iff)
  finally show ?thesis .
qed

lemma is_varint_Cons: "is_varint (b # bs) = (if bs = [] then \<not> bit b 7 else bit b 7 \<and> is_varint bs)"
  by (cases bs) simp_all

lemma readVarIntZigZag_loop_value:
  "0 \<le> off \<Longrightarrow> take (length bs) (drop (nat off) (reader_data r)) = bs \<Longrightarrow> is_varint bs
    \<Longrightarrow> shift + 7 * length bs \<le> 70
    \<Longrightarrow> readVarIntZigZag_loop r result shift off
        = Inr (sint (zigzag_int (result OR assembled32 shift bs)), off + int (length bs))"
proof (induction bs arbitrary: off result shift)
  case Nil
  then show ?case by simp
next
  case (Cons b bs)
  from Cons.prems(2) obtain rest where d: "drop (nat off) (reader_data r) = b # rest"
    and t: "take (length bs) rest = bs"
    by (cases "drop (nat off) (reader_data r)") auto
  have rb: "readByte r off = Inr (sint b, off + 1)" and al: "allocate r off 1 = Inr ()"
    using readByte_at [OF Cons.prems(1) d] allocate_at [OF Cons.prems(1) d] by simp_all
  show ?case
  proof (cases "bs = []")
    case True
    with Cons.prems(3) have "\<not> bit b 7" by simp
    then show ?thesis using True rb al
      by (subst readVarIntZigZag_loop.simps) (simp add: more32 group32 Let_def)
  next
    case False
    with Cons.prems(3) have m: "bit b 7" and v: "is_varint bs" by (simp_all add: is_varint_Cons)
    from False have len: "1 \<le> length bs" by (cases bs) simp_all
    from Cons.prems(4) have sh': "shift + 7 + 7 * length bs \<le> 70" by simp
    from len sh' have sh: "\<not> shift + 7 > 63" by linarith
    have "nat (off + 1) = Suc (nat off)" using Cons.prems(1) by simp
    then have "drop (nat (off + 1)) (reader_data r) = rest"
      using drop_advance1' [OF d] by simp
    with t have t': "take (length bs) (drop (nat (off + 1)) (reader_data r)) = bs" by simp
    have "0 \<le> off + 1" using Cons.prems(1) by simp
    from Cons.IH [OF this t' v sh'] show ?thesis using rb al m sh
      by (subst readVarIntZigZag_loop.simps) (simp add: more32 group32 or.assoc Let_def)
  qed
qed

lemma readVarLongZigZag_loop_value:
  "0 \<le> off \<Longrightarrow> take (length bs) (drop (nat off) (reader_data r)) = bs \<Longrightarrow> is_varint bs
    \<Longrightarrow> shift + 7 * length bs \<le> 70
    \<Longrightarrow> readVarLongZigZag_loop r result shift off
        = Inr (zigzag_long (result OR assembled shift bs), off + int (length bs))"
proof (induction bs arbitrary: off result shift)
  case Nil
  then show ?case by simp
next
  case (Cons b bs)
  from Cons.prems(2) obtain rest where d: "drop (nat off) (reader_data r) = b # rest"
    and t: "take (length bs) rest = bs"
    by (cases "drop (nat off) (reader_data r)") auto
  have rb: "readByte r off = Inr (sint b, off + 1)" and al: "allocate r off 1 = Inr ()"
    using readByte_at [OF Cons.prems(1) d] allocate_at [OF Cons.prems(1) d] by simp_all
  show ?case
  proof (cases "bs = []")
    case True
    with Cons.prems(3) have "\<not> bit b 7" by simp
    then show ?thesis using True rb al
      by (subst readVarLongZigZag_loop.simps) (simp add: more32 group Let_def del: push_bit_and)
  next
    case False
    with Cons.prems(3) have m: "bit b 7" and v: "is_varint bs" by (simp_all add: is_varint_Cons)
    from False have len: "1 \<le> length bs" by (cases bs) simp_all
    from Cons.prems(4) have sh': "shift + 7 + 7 * length bs \<le> 70" by simp
    from len sh' have sh: "\<not> shift + 7 > 63" by linarith
    have "nat (off + 1) = Suc (nat off)" using Cons.prems(1) by simp
    then have "drop (nat (off + 1)) (reader_data r) = rest"
      using drop_advance1' [OF d] by simp
    with t have t': "take (length bs) (drop (nat (off + 1)) (reader_data r)) = bs" by simp
    have "0 \<le> off + 1" using Cons.prems(1) by simp
    from Cons.IH [OF this t' v sh'] show ?thesis using rb al m sh
      by (subst readVarLongZigZag_loop.simps) (simp add: more32 group or.assoc Let_def del: push_bit_and)
  qed
qed

text \<open>
  C5. Whatever varint of at most ten bytes lies at the cursor, \<^verbatim>\<open>#readVarIntZigZag\<close>
  returns the reference formula \<^verbatim>\<open>(n >> 1) ^ -(n & 1)\<close> of the value \<open>n\<close> it
  assembled, computed on 32-bit words and read as a signed int, and
  \<^verbatim>\<open>#readVarLongZigZag\<close> returns the same formula of its assembled value on unbounded
  integers; both leave the cursor after the varint. In particular the int decoder's
  expression \<^verbatim>\<open>((((n << 63) >> 63) ^ n) >> 1) ^ (n & (1 << 63))\<close>, evaluated with
  JavaScript's 32-bit shifts (counts taken modulo 32), equals the reference formula for
  every 32-bit \<open>n\<close>.
\<close>

theorem zigzag_decode_is_reference:
  assumes "0 \<le> off" and "take (length bs) (drop (nat off) (reader_data r)) = bs"
    and "is_varint bs" and "length bs \<le> 10"
  shows "readVarIntZigZag r off = Inr (sint (zigzag_formula32 (assembled32 0 bs)), off + int (length bs))
    \<and> readVarLongZigZag r off = Inr (zigzag_formula (assembled 0 bs), off + int (length bs))
    \<and> zigzag_int n = zigzag_formula32 n"
proof -
  from assms(4) have "0 + 7 * length bs \<le> 70" by simp
  from readVarIntZigZag_loop_value [OF assms(1-3) this, of 0]
    readVarLongZigZag_loop_value [OF assms(1-3) this, of 0]
  show ?thesis
    by (simp add: readVarIntZigZag_def readVarLongZigZag_def zigzag_int_formula zigzag_long_def
        zigzag_formula_def)
qed

theorem zigzag_decode_is_reference_witness:
  "readVarIntZigZag \<lparr>reader_data = [0xAC, 0x02], littleEndian = True, varint = True\<rparr> 0 = Inr (150, 2)
   \<and> readVarLongZigZag \<lparr>reader_data = [0xAC, 0x02], littleEndian = True, varint = True\<rparr> 0 = Inr (150, 2)"
  using zigzag_decode_is_reference [of 0 "[0xAC, 0x02]" "\<lparr>reader_data = [0xAC, 0x02], littleEndian = True, varint = True\<rparr>"]
  by (simp add: js_shl_def zigzag_formula32_def zigzag_formula_def)

text \<open>What the formula computes on the unsigned value a long varint assembles.\<close>

lemma zigzag_long_value:
  "zigzag_long m = (if even m then m div 2 else - (m div 2) - 1)"
proof (cases "even m")
  case True
  then have "m AND 1 = 0" by (simp add: and_one_eq)
  then show ?thesis using True by (simp add: zigzag_long_def drop_bit_eq_div)
next
  case False
  then have "m AND 1 = 1" by (simp add: and_one_eq odd_iff_mod_2_eq_one)
  then have "zigzag_long m = NOT (m div 2)"
    by (simp add: zigzag_long_def drop_bit_eq_div)
  then show ?thesis using False by (simp add: not_int_def)
qed

lemma new_Byte_value: "new_Byte v = Num (of_int (signed_take_bit 7 (sint (ToInt32 v))))"
  unfolding new_Byte_def by (rule number_of_int32_eq) (simp add: sint_sar_shl)

lemma new_Short_value: "new_Short v = Num (of_int (signed_take_bit 15 (sint (ToInt32 v))))"
  unfolding new_Short_def by (rule number_of_int32_eq) (simp add: sint_sar_shl)

lemma new_Int_value: "new_Int v = Num (of_int (sint (ToInt32 v)))"
  unfolding new_Int_def by (rule number_of_int32_eq) simp

lemma sint_ToInt32_of_int: "sint (ToInt32 (Num (of_int i))) = signed_take_bit 31 i"
  by (simp add: trunc_toward_zero_def sint_sbintrunc')

lemma valueOf_int_of_int: "valueOf_int (Num (of_int i)) = i"
  by (simp only: valueOf_int_def jsnumber.case floor_of_int)

lemma Int8_value: "Int8 i = signed_take_bit 7 i"
  unfolding Int8_def new_Byte_value sint_ToInt32_of_int valueOf_int_of_int
  by (simp add: signed_take_bit_signed_take_bit)

lemma Int16_value: "Int16 i = signed_take_bit 15 i"
  unfolding Int16_def new_Short_value sint_ToInt32_of_int valueOf_int_of_int
  by (simp add: signed_take_bit_signed_take_bit)

lemma Int32_value: "Int32 i = signed_take_bit 31 i"
  unfolding Int32_def new_Int_value sint_ToInt32_of_int valueOf_int_of_int ..

lemma Int8_in_range: "- 128 \<le> i \<Longrightarrow> i < 128 \<Longrightarrow> Int8 i = i"
  unfolding Int8_value by (rule signed_take_bit_int_eq_self) simp_all

lemma Int16_in_range: "- 32768 \<le> i \<Longrightarrow> i < 32768 \<Longrightarrow> Int16 i = i"
  unfolding Int16_value by (rule signed_take_bit_int_eq_self) simp_all

lemma Int32_in_range: "- 2147483648 \<le> i \<Longrightarrow> i < 2147483648 \<Longrightarrow> Int32 i = i"
  unfolding Int32_value by (rule signed_take_bit_int_eq_self) simp_all

lemma word_of_signed_take_bit_8: "(word_of_int (signed_take_bit 7 (sint (w :: 32 word))) :: 8 word) = ucast w"
proof (rule bit_word_eqI)
  fix n assume "n < LENGTH(8)"
  then consider "n < 7" | "n = 7" by fastforce
  then show "bit (word_of_int (signed_take_bit 7 (sint w)) :: 8 word) n = bit (ucast w :: 8 word) n"
    by cases (auto simp: bit_word_of_int_iff bit_signed_take_bit_iff bit_sint_iff bit_ucast_iff min_def)
qed

lemma word_of_signed_take_bit_16: "(word_of_int (signed_take_bit 15 (sint (w :: 32 word))) :: 16 word) = ucast w"
proof (rule bit_word_eqI)
  fix n assume "n < LENGTH(16)"
  then consider "n < 15" | "n = 15" by fastforce
  then show "bit (word_of_int (signed_take_bit 15 (sint w)) :: 16 word) n = bit (ucast w :: 16 word) n"
    by cases (auto simp: bit_word_of_int_iff bit_signed_take_bit_iff bit_sint_iff bit_ucast_iff min_def)
qed

text \<open>
  C6 (as amended). For every number \<open>v\<close>, the Byte, Short and Int wrappers hold the
  two's-complement truncation of \<open>v\<close>'s int32 conversion to 8, 16 and 32 bits (what
  \<^verbatim>\<open>v << 24 >> 24\<close>, \<^verbatim>\<open>v << 16 >> 16\<close> and \<^verbatim>\<open>v | 0\<close> compute), and the writer
  encodes what they hold in one, two and four bytes: the low 8, 16 and 32 bits of that
  int32. The Float wrapper holds \<open>v\<close> itself (its constructor is \<^verbatim>\<open>super(value)\<close>
  and narrows nothing); the writer encodes it in four bytes, the single-precision
  encoding of \<open>v\<close>, so the narrowing happens when the value is written.
\<close>

theorem wrappers_normalise:
  "new_Byte v = Num (of_int (signed_take_bit 7 (sint (ToInt32 v))))
   \<and> new_Short v = Num (of_int (signed_take_bit 15 (sint (ToInt32 v))))
   \<and> new_Int v = Num (of_int (sint (ToInt32 v)))
   \<and> new_Float v = v
   \<and> writeTag le (ByteTag (valueOf_int (new_Byte v))) = Inr [ucast (ToInt32 v)]
   \<and> writeTag le (ShortTag (valueOf_int (new_Short v)))
        = Inr (bytes_of_uint le 2 (unat (ucast (ToInt32 v) :: 16 word)))
   \<and> writeTag le (IntTag (valueOf_int (new_Int v))) = Inr (bytes_of_uint le 4 (unat (ToInt32 v)))
   \<and> writeTag le (FloatTag (new_Float v)) = Inr (bytes_of_uint le 4 (ieee_encode 23 8 v))"
  unfolding new_Byte_value new_Short_value new_Int_value valueOf_int_of_int
  by (simp add: new_Float_def writeByte_def writeShort_def writeInt_def writeFloat_def
      word_of_signed_take_bit_8 word_of_signed_take_bit_16)

text \<open>
  C6 as stated fails: the claim has the Float wrapper narrow its argument to single
  precision, and \<^verbatim>\<open>new Float(16777217)\<close> holds 16777217, which is no single-precision
  value (\<^verbatim>\<open>Math.fround\<close> gives 16777216).
\<close>

lemma bit_length_values: "bit_length 16777217 = 25" "bit_length (Suc 0) = 1"
  by (simp_all add: bit_length.simps)

lemma fround_16777217: "fround (Num 16777217) = Num 16777216"
proof -
  have "floor_log2 16777217 1 = 24"
    by (simp add: floor_log2_def bit_length_values)
  moreover have "round_half_even 16777217 2 = 8388608"
    by (simp add: round_half_even_def Let_def)
  ultimately have "ieee_encode 23 8 (Num 16777217) = 1266679808"
    by (simp add: ieee_encode_def Let_def)
  then show ?thesis
    by (simp add: fround_def ieee_decode_def pow2_def Let_def)
qed

theorem new_Float_does_not_narrow:
  "new_Float (Num 16777217) \<noteq> fround (Num 16777217)"
  by (simp add: fround_16777217 new_Float_def)

section \<open>Results on the binary reader\<close>

lemmas reader_eval =
  then_do_def allocate_def byteLength_def view_bytes_def uint_of_bytes_def getUint_def
  getInt8_def getInt16_def getInt32_def getBigInt64_def getFloat32_def getFloat64_def
  readUnsignedByte_def readByte_def readTagType_def isTagType_def TAG_of_id_def TAG_ids_def
  js_shl_def js_sar_def mutf8_decode_def

text \<open>
  C4 fails on the code. An int-sized zig-zag varint whose shift passes 31 is not refused:
  \<^verbatim>\<open>#readVarIntZigZag\<close> tests \<^verbatim>\<open>shift > 63\<close>, the limit of a long. Six bytes with five
  continuation bits bring the shift to 35 and decode, the sixth byte's bit landing on
  bit 3 of the result (the shift count is taken modulo 32). \<^verbatim>\<open>#readVarInt\<close>, which reads
  the string lengths of the varint dialect, has no limit at all: eleven bytes, shift 70,
  decode as well.
\<close>

theorem varint_int_overflow_accepted:
  "readVarIntZigZag \<lparr>reader_data = [0x80, 0x80, 0x80, 0x80, 0x80, 0x01], littleEndian = True, varint = True\<rparr> 0
     = Inr (4, 6)
   \<and> readVarInt \<lparr>reader_data = [0x80, 0x80, 0x80, 0x80, 0x80, 0x80, 0x80, 0x80, 0x80, 0x80, 0x01],
        littleEndian = True, varint = True\<rparr> 0 = Inr (64, 11)"
  by (simp add: readVarIntZigZag_def readVarInt_def zigzag_int_def reader_eval
      readVarIntZigZag_loop.simps readVarInt_loop.simps)

text \<open>
  A compound whose one entry is a byte array of length \<open>-7\<close>: reading the entry leaves
  the cursor where the entry began.
\<close>

definition looping_buffer :: "byte list" where
  "looping_buffer = [0x0A, 0x07, 0x00, 0x00, 0xFF, 0xFF, 0xFF, 0xF9]"

lemma looping_steps:
  "readTagType \<lparr>reader_data = looping_buffer, littleEndian = False, varint = False\<rparr> 0 = Inr (TAG_COMPOUND, 1)"
  "readTagType \<lparr>reader_data = looping_buffer, littleEndian = False, varint = False\<rparr> 1 = Inr (TAG_BYTE_ARRAY, 2)"
  "readString \<lparr>reader_data = looping_buffer, littleEndian = False, varint = False\<rparr> 2 = Inr ([], 4)"
  "readByteArray \<lparr>reader_data = looping_buffer, littleEndian = False, varint = False\<rparr> 4 = Inr ([], 1)"
  by (simp_all add: looping_buffer_def readString_def readUnsignedShort_def
      readByteArray_def readInt_def subarray_def reader_eval)

lemma looping_compound:
  "readCompound_loop \<lparr>reader_data = looping_buffer, littleEndian = False, varint = False\<rparr> fuel 1 value' = None"
proof (induction fuel arbitrary: value')
  case 0
  show ?case by simp
next
  case (Suc fuel)
  show ?case
  proof (cases fuel)
    case 0
    then show ?thesis by (simp add: looping_steps)
  next
    case (Suc n)
    then show ?thesis using Suc.IH by (simp add: looping_steps then_do_def)
  qed
qed

text \<open>
  C10 fails on the code. The buffer \<^verbatim>\<open>0A 07 00 00 FF FF FF F9\<close>, read as a big-endian
  compound without a root name, never returns: whatever the fuel, the read has not
  finished. \<^verbatim>\<open>#allocate\<close> accepts the negative length, \<^verbatim>\<open>#readByteArray\<close> moves the
  cursor back to offset 1, and the loop of \<^verbatim>\<open>#readCompound\<close> reads the same entry again.
\<close>

theorem read_never_returns:
  "read decompress fuel looping_buffer
     \<lparr>p_rootName = Some RootNameNull, p_endian = Some Big, p_compression = Some None,
      p_bedrockLevel = Some BedrockLevelNull, p_strict = Some strict\<rparr> = None"
proof (cases fuel)
  case 0
  then show ?thesis
    using looping_steps(1)
    by (simp add: read_pinned_def readRoot_def)
next
  case (Suc n)
  then show ?thesis
    using looping_steps(1) looping_compound
    by (simp add: read_pinned_def readRoot_def)
qed

section \<open>Results on the format probe\<close>

definition unspecified :: PartialReadOptions where
  "unspecified = \<lparr>p_rootName = None, p_endian = None, p_compression = None, p_bedrockLevel = None,
     p_strict = None\<rparr>"

text \<open>
  C9 fails on the code for a buffer shorter than two bytes. The gzip probe reads a
  16-bit value at offset 0 before anything else, and on the one-byte buffer \<^verbatim>\<open>78\<close> the
  DataView throws a RangeError: zlib is never selected. On the empty buffer the same
  RangeError surfaces, not the error of the attempt with compression none, which would
  be the reader's own out-of-bytes error.
\<close>

theorem read_short_buffer_range_error:
  "read decompress fuel [0x78] unspecified = Some (Inl RangeError)
   \<and> read decompress fuel [] unspecified = Some (Inl RangeError)
   \<and> read decompress fuel [] (unspecified\<lparr>p_compression := Some None\<rparr>) = Some (Inl RanOutOfBytes)"
  by (simp add: unspecified_def probe_compression_def hasGzipHeader_def hasZlibHeader_def
      hasBedrockLevelHeader_def read_pinned_def readRoot_def reader_eval)

section \<open>Results on the byte round trip\<close>

lemma upt_values:
  "[0..<1] = [0]" "[0..<2] = [0, 1]" "[0..<4] = [0, 1, 2, 3]" "[0..<8] = [0, 1, 2, 3, 4, 5, 6, 7]"
  by (simp_all add: upt_conv_Cons)

lemmas writer_eval =
  writeString_def writeUnsignedShort_def writeTagType_def writeUnsignedByte_def writeByte_def
  writeShort_def writeInt_def writeLong_def writeByteArray_def writeIntArray_def writeLongArray_def
  bytes_of_uint_def upt_values utf8_of_codepoint_def is_high_surrogate_def is_low_surrogate_def
  then_do_def

text \<open>
  A named root \<^verbatim>\<open>""\<close> holding the string entry \<^verbatim>\<open>a\<close> whose payload is the two bytes
  \<^verbatim>\<open>C0 80\<close>, the Modified UTF-8 form of U+0000.
\<close>

definition nul_string_buffer :: "byte list" where
  "nul_string_buffer = [0x0A, 0x00, 0x00, 0x08, 0x00, 0x01, 0x61, 0x00, 0x02, 0xC0, 0x80, 0x00]"

text \<open>
  C1 fails on the code. The reader decodes string payloads as Modified UTF-8 and the
  writer encodes them with \<^verbatim>\<open>TextEncoder\<close>, which is standard UTF-8. The buffer above
  decodes to the compound \<^verbatim>\<open>{a: "\u0000"}\<close>, and writing that compound back under the
  same dialect gives a one-byte payload \<^verbatim>\<open>00\<close> with length 1: eleven bytes, not the
  twelve that were read.
\<close>

theorem string_bytes_not_round_tripped:
  "read decompress (Suc (Suc (Suc fuel))) nul_string_buffer
     \<lparr>p_rootName = Some (RootNameBool True), p_endian = Some Big, p_compression = Some None,
      p_bedrockLevel = Some BedrockLevelNull, p_strict = Some True\<rparr>
     = Some (Inr \<lparr>data = CompoundTag [(str ''a'', StringTag [0])], rootName = Some [], endian = Big,
                  compression = Some None, bedrockLevel = Some BedrockLevelNull\<rparr>)
   \<and> write_nbt compress [(str ''a'', StringTag [0])]
        \<lparr>w_name = Some (Some []), w_endian = Some Big, w_compression = Some None, w_bedrockLevel = Some None\<rparr>
     = Inr [0x0A, 0x00, 0x00, 0x08, 0x00, 0x01, 0x61, 0x00, 0x01, 0x00, 0x00]
   \<and> [0x0A, 0x00, 0x00, 0x08, 0x00, 0x01, 0x61, 0x00, 0x01, 0x00, 0x00] \<noteq> nul_string_buffer"
proof (intro conjI)
  show "read decompress (Suc (Suc (Suc fuel))) nul_string_buffer
     \<lparr>p_rootName = Some (RootNameBool True), p_endian = Some Big, p_compression = Some None,
      p_bedrockLevel = Some BedrockLevelNull, p_strict = Some True\<rparr>
     = Some (Inr \<lparr>data = CompoundTag [(str ''a'', StringTag [0])], rootName = Some [], endian = Big,
                  compression = Some None, bedrockLevel = Some BedrockLevelNull\<rparr>)"
    by (simp add: nul_string_buffer_def read_pinned_def readRoot_def readString_def
        readUnsignedShort_def subarray_def obj_set_def array_index_def is_digit_def str_def reader_eval)
  show "write_nbt compress [(str ''a'', StringTag [0])]
        \<lparr>w_name = Some (Some []), w_endian = Some Big, w_compression = Some None, w_bedrockLevel = Some None\<rparr>
     = Inr [0x0A, 0x00, 0x00, 0x08, 0x00, 0x01, 0x61, 0x00, 0x01, 0x00, 0x00]"
    by (simp add: write_nbt_def NBTWriter_write_def str_def writer_eval)
  show "[0x0A, 0x00, 0x00, 0x08, 0x00, 0x01, 0x61, 0x00, 0x01, 0x00, 0x00] \<noteq> nul_string_buffer"
    by (simp add: nul_string_buffer_def)
qed

section \<open>Strict overrun detection\<close>

text \<open>
  Reading a buffer and reading the same buffer with bytes appended take the same steps,
  as long as the cursor stays inside the buffer. \<open>reads_forward\<close> is the property of
  the scalar readers: where they succeed, the cursor was inside the buffer, has moved
  forward, has not left the buffer, and the longer buffer gives the same result.
  \<open>reads_back\<close> is the weaker property of the array and string readers, whose cursor
  can move back.
\<close>

definition extend :: "NBTReader \<Rightarrow> byte list \<Rightarrow> NBTReader" where
  "extend r s = r\<lparr>reader_data := reader_data r @ s\<rparr>"

lemma extend_simps [simp]:
  "byteLength (extend r s) = byteLength r + int (length s)"
  "littleEndian (extend r s) = littleEndian r"
  "varint (extend r s) = varint r"
  "reader_data (extend r s) = reader_data r @ s"
  by (simp_all add: extend_def byteLength_def)

definition reads_forward :: "(NBTReader \<Rightarrow> int \<Rightarrow> error + 'a \<times> int) \<Rightarrow> bool" where
  "reads_forward f =
    (\<forall>r off v off' s. f r off = Inr (v, off') \<longrightarrow>
       0 \<le> off \<and> off < off' \<and> off' \<le> byteLength r \<and> f (extend r s) off = Inr (v, off'))"

lemma reads_forwardD:
  assumes "reads_forward f" "f r off = Inr (v, off')"
  shows "0 \<le> off" "off < off'" "off' \<le> byteLength r" "f (extend r s) off = Inr (v, off')"
  using assms unfolding reads_forward_def by blast+

lemma take_drop_append:
  "int n + off \<le> int (length b) \<Longrightarrow> 0 \<le> off \<Longrightarrow> take n (drop (nat off) (b @ s)) = take n (drop (nat off) b)"
  by simp

lemmas scalar_defs =
  then_do_def allocate_def view_bytes_def getUint_def getInt8_def getInt16_def getInt32_def
  getBigInt64_def getFloat32_def getFloat64_def byteLength_def extend_def

lemma reads_forward_readUnsignedByte: "reads_forward readUnsignedByte"
  unfolding reads_forward_def readUnsignedByte_def
  by (auto simp: scalar_defs split: if_splits)

lemma reads_forward_readByte: "reads_forward readByte"
  unfolding reads_forward_def readByte_def
  by (auto simp: scalar_defs split: if_splits)

lemma reads_forward_readTagType: "reads_forward readTagType"
  unfolding reads_forward_def readTagType_def readUnsignedByte_def
  by (auto simp: scalar_defs split: if_splits)

lemma reads_forward_readShort: "reads_forward readShort"
  unfolding reads_forward_def readShort_def
  by (auto simp: scalar_defs split: if_splits)

lemma reads_forward_readFloat: "reads_forward readFloat"
  unfolding reads_forward_def readFloat_def
  by (auto simp: scalar_defs split: if_splits)

lemma reads_forward_readDouble: "reads_forward readDouble"
  unfolding reads_forward_def readDouble_def
  by (auto simp: scalar_defs split: if_splits)



lemma readVarInt_loop_forward:
  "readVarInt_loop r v sh off = Inr (x, off') \<Longrightarrow>
     0 \<le> off \<and> off < off' \<and> off' \<le> byteLength r \<and> readVarInt_loop (extend r s) v sh off = Inr (x, off')"
proof (induction r v sh off rule: readVarInt_loop.induct)
  case (1 r v sh off)
  from "1.prems" obtain byte off1 where rb: "readByte r off = Inr (byte, off1)"
    by (subst (asm) readVarInt_loop.simps) (auto split: sum.splits)
  note fw = reads_forwardD [OF reads_forward_readByte rb]
  show ?case
  proof (cases "word_of_int byte AND (0x80 :: 32 word) = 0")
    case True
    then show ?thesis using "1.prems" rb fw
      by (subst readVarInt_loop.simps, subst (asm) readVarInt_loop.simps) (auto simp: Let_def)
  next
    case False
    with "1.prems" rb have rec: "readVarInt_loop r (v OR js_shl (word_of_int byte AND 0x7F) sh) (sh + 7) off1 = Inr (x, off')"
      by (subst (asm) readVarInt_loop.simps) (simp add: Let_def)
    from "1.IH" [OF rb refl refl False rec] fw False rb show ?thesis
      by (subst readVarInt_loop.simps) (auto simp: Let_def)
  qed
qed

lemma reads_forward_readVarInt: "reads_forward readVarInt"
  unfolding reads_forward_def readVarInt_def using readVarInt_loop_forward by blast


lemma allocate_Inr: "allocate r off n = Inr u \<longleftrightarrow> off + n \<le> byteLength r"
  by (auto simp: allocate_def)

lemma allocate_extend: "allocate r off n = Inr u \<Longrightarrow> allocate (extend r s) off n = Inr u"
  by (auto simp: allocate_def split: if_splits)

lemma readVarIntZigZag_loop_forward:
  "readVarIntZigZag_loop r v sh off = Inr (x, off') \<Longrightarrow>
     0 \<le> off \<and> off < off' \<and> off' \<le> byteLength r
     \<and> readVarIntZigZag_loop (extend r s) v sh off = Inr (x, off')"
proof (induction r v sh off rule: readVarIntZigZag_loop.induct)
  case (1 r v sh off)
  from "1.prems" obtain u where al: "allocate r off 1 = Inr u"
    by (subst (asm) readVarIntZigZag_loop.simps) (auto split: sum.splits)
  from "1.prems" al obtain b off1 where rb: "readByte r off = Inr (b, off1)"
    by (subst (asm) readVarIntZigZag_loop.simps) (auto split: sum.splits)
  note fw = reads_forwardD [OF reads_forward_readByte rb]
  note al' = allocate_extend [OF al, of s]
  show ?case
  proof (cases "word_of_int b AND (0x80 :: 32 word) = 0")
    case True
    then show ?thesis using "1.prems" rb fw al al'
      by (subst readVarIntZigZag_loop.simps, subst (asm) readVarIntZigZag_loop.simps) (auto simp: Let_def)
  next
    case False
    with "1.prems" rb al have small: "\<not> 63 < sh + 7"
      by (subst (asm) readVarIntZigZag_loop.simps) (auto simp: Let_def split: if_splits)
    with False "1.prems" rb al
    have rec: "readVarIntZigZag_loop r (v OR js_shl (word_of_int b AND 0x7F) sh) (sh + 7) off1 = Inr (x, off')"
      by (subst (asm) readVarIntZigZag_loop.simps) (simp add: Let_def)
    from "1.IH" [OF al rb refl refl False small rec] fw False rb al al' small show ?thesis
      by (subst readVarIntZigZag_loop.simps) (auto simp: Let_def)
  qed
qed

lemma readVarLongZigZag_loop_forward:
  "readVarLongZigZag_loop r v sh off = Inr (x, off') \<Longrightarrow>
     0 \<le> off \<and> off < off' \<and> off' \<le> byteLength r
     \<and> readVarLongZigZag_loop (extend r s) v sh off = Inr (x, off')"
proof (induction r v sh off rule: readVarLongZigZag_loop.induct)
  case (1 r v sh off)
  from "1.prems" obtain u where al: "allocate r off 1 = Inr u"
    by (subst (asm) readVarLongZigZag_loop.simps) (auto split: sum.splits)
  from "1.prems" al obtain b off1 where rb: "readByte r off = Inr (b, off1)"
    by (subst (asm) readVarLongZigZag_loop.simps) (auto split: sum.splits)
  note fw = reads_forwardD [OF reads_forward_readByte rb]
  note al' = allocate_extend [OF al, of s]
  show ?case
  proof (cases "word_of_int b AND (0x80 :: 32 word) = 0")
    case True
    then show ?thesis using "1.prems" rb fw al al'
      by (subst readVarLongZigZag_loop.simps, subst (asm) readVarLongZigZag_loop.simps) (auto simp: Let_def)
  next
    case False
    with "1.prems" rb al have small: "\<not> 63 < sh + 7"
      by (subst (asm) readVarLongZigZag_loop.simps) (auto simp: Let_def split: if_splits)
    with False "1.prems" rb al
    have rec: "readVarLongZigZag_loop r (v OR push_bit sh (b AND 0x7F)) (sh + 7) off1 = Inr (x, off')"
      by (subst (asm) readVarLongZigZag_loop.simps) (simp add: Let_def)
    from "1.IH" [OF al rb refl refl False small rec] fw False rb al al' small show ?thesis
      by (subst readVarLongZigZag_loop.simps) (auto simp: Let_def)
  qed
qed

lemma reads_forward_readUnsignedShort: "reads_forward readUnsignedShort"
  unfolding reads_forward_def readUnsignedShort_def
  using reads_forwardD [OF reads_forward_readVarInt]
  by (auto simp: scalar_defs split: if_splits)

lemma reads_forward_readUnsignedInt: "reads_forward readUnsignedInt"
  unfolding reads_forward_def readUnsignedInt_def
  using reads_forwardD [OF reads_forward_readVarInt]
  by (auto simp: scalar_defs split: if_splits)

lemma reads_forward_readInt: "reads_forward readInt"
  unfolding reads_forward_def readInt_def readVarIntZigZag_def
  using readVarIntZigZag_loop_forward
  by (auto simp: scalar_defs split: if_splits)

lemma reads_forward_readLong: "reads_forward readLong"
  unfolding reads_forward_def readLong_def readVarLongZigZag_def
  using readVarLongZigZag_loop_forward
  by (auto simp: scalar_defs split: if_splits)


lemma subarray_extend:
  assumes "0 \<le> b0" "b0 \<le> int (length d)" "0 \<le> e" "e \<le> int (length d)"
  shows "subarray (d @ s) b0 e = subarray d b0 e"
proof -
  have "nat (e - b0) + nat b0 \<le> length d \<or> e < b0" using assms by linarith
  then show ?thesis using assms by (auto simp: subarray_def Let_def min_def max_def)
qed

definition reads_back :: "(NBTReader \<Rightarrow> int \<Rightarrow> error + 'a \<times> int) \<Rightarrow> bool" where
  "reads_back f =
    (\<forall>r off v off' s. f r off = Inr (v, off') \<longrightarrow>
       0 \<le> off \<and> off' \<le> byteLength r \<and> (0 \<le> off' \<longrightarrow> f (extend r s) off = Inr (v, off')))"

lemma reads_backD:
  assumes "reads_back f" "f r off = Inr (v, off')"
  shows "0 \<le> off" "off' \<le> byteLength r" "0 \<le> off' \<Longrightarrow> f (extend r s) off = Inr (v, off')"
  using assms unfolding reads_back_def by blast+

lemma reads_forward_back: "reads_forward f \<Longrightarrow> reads_back f"
  unfolding reads_forward_def reads_back_def by blast

lemma reads_back_readByteArray: "reads_back readByteArray"
  unfolding reads_back_def
proof (intro allI impI)
  fix r off v off' s
  assume a: "readByteArray r off = Inr (v, off')"
  then obtain len off1 where ri: "readInt r off = Inr (len, off1)"
    by (auto simp: readByteArray_def then_do_def split: sum.splits)
  note fw = reads_forwardD [OF reads_forward_readInt ri]
  from a ri have al: "off1 + len \<le> byteLength r"
    and v: "v = map sint (subarray (reader_data r) off1 (off1 + len))" and off': "off' = off1 + len"
    by (auto simp: readByteArray_def then_do_def allocate_def split: sum.splits if_splits)
  show "0 \<le> off \<and> off' \<le> byteLength r \<and> (0 \<le> off' \<longrightarrow> readByteArray (extend r s) off = Inr (v, off'))"
  proof (intro conjI impI)
    show "0 \<le> off" using fw by simp
    show "off' \<le> byteLength r" using al off' by simp
    assume "0 \<le> off'"
    then have "subarray (reader_data r @ s) off1 (off1 + len) = subarray (reader_data r) off1 (off1 + len)"
      using fw al off' by (intro subarray_extend) (auto simp: byteLength_def)
    then show "readByteArray (extend r s) off = Inr (v, off')"
      using fw(4) [of s] al v off' by (simp add: readByteArray_def then_do_def allocate_def)
  qed
qed

lemma reads_back_readString: "reads_back readString"
  unfolding reads_back_def
proof (intro allI impI)
  fix r off v off' s
  assume a: "readString r off = Inr (v, off')"
  then obtain len off1 where ri: "readUnsignedShort r off = Inr (len, off1)"
    by (auto simp: readString_def then_do_def split: sum.splits)
  note fw = reads_forwardD [OF reads_forward_readUnsignedShort ri]
  from a ri have al: "off1 + len \<le> byteLength r"
    and v: "v = mutf8_decode (subarray (reader_data r) off1 (off1 + len))" and off': "off' = off1 + len"
    by (auto simp: readString_def then_do_def allocate_def split: sum.splits if_splits)
  show "0 \<le> off \<and> off' \<le> byteLength r \<and> (0 \<le> off' \<longrightarrow> readString (extend r s) off = Inr (v, off'))"
  proof (intro conjI impI)
    show "0 \<le> off" using fw by simp
    show "off' \<le> byteLength r" using al off' by simp
    assume "0 \<le> off'"
    then have "subarray (reader_data r @ s) off1 (off1 + len) = subarray (reader_data r) off1 (off1 + len)"
      using fw al off' by (intro subarray_extend) (auto simp: byteLength_def)
    then show "readString (extend r s) off = Inr (v, off')"
      using fw(4) [of s] al v off' by (simp add: readString_def then_do_def allocate_def)
  qed
qed

lemma readInts_forward:
  "readInts r n off acc = Inr (v, off') \<Longrightarrow> off \<le> byteLength r \<Longrightarrow>
     off \<le> off' \<and> off' \<le> byteLength r \<and> readInts (extend r s) n off acc = Inr (v, off')"
proof (induction n arbitrary: off acc)
  case 0
  then show ?case by simp
next
  case (Suc n)
  from Suc.prems obtain e off1 where ri: "readInt r off = Inr (e, off1)"
    by (auto simp: then_do_def split: sum.splits)
  note fw = reads_forwardD [OF reads_forward_readInt ri]
  from Suc.prems ri have rec: "readInts r n off1 (acc @ [e]) = Inr (v, off')"
    by (simp add: then_do_def)
  from Suc.IH [OF rec fw(3)] fw show ?case using ri by (simp add: then_do_def)
qed

lemma readLongs_forward:
  "readLongs r n off acc = Inr (v, off') \<Longrightarrow> off \<le> byteLength r \<Longrightarrow>
     off \<le> off' \<and> off' \<le> byteLength r \<and> readLongs (extend r s) n off acc = Inr (v, off')"
proof (induction n arbitrary: off acc)
  case 0
  then show ?case by simp
next
  case (Suc n)
  from Suc.prems obtain e off1 where ri: "readLong r off = Inr (e, off1)"
    by (auto simp: then_do_def split: sum.splits)
  note fw = reads_forwardD [OF reads_forward_readLong ri]
  from Suc.prems ri have rec: "readLongs r n off1 (acc @ [signed_take_bit 63 e]) = Inr (v, off')"
    by (simp add: then_do_def)
  from Suc.IH [OF rec fw(3)] fw show ?case using ri by (simp add: then_do_def)
qed

lemma reads_forward_readIntArray: "reads_forward readIntArray"
  unfolding reads_forward_def
proof (intro allI impI)
  fix r off v off' s
  assume a: "readIntArray r off = Inr (v, off')"
  then obtain len off1 where ri: "readInt r off = Inr (len, off1)"
    by (auto simp: readIntArray_def then_do_def split: sum.splits)
  note fw = reads_forwardD [OF reads_forward_readInt ri]
  from a ri have len: "\<not> len < 0" and rec: "readInts r (nat len) off1 [] = Inr (v, off')"
    by (auto simp: readIntArray_def then_do_def split: if_splits)
  from readInts_forward [OF rec fw(3), of s] fw len ri
  show "0 \<le> off \<and> off < off' \<and> off' \<le> byteLength r \<and> readIntArray (extend r s) off = Inr (v, off')"
    by (simp add: readIntArray_def then_do_def)
qed

lemma reads_forward_readLongArray: "reads_forward readLongArray"
  unfolding reads_forward_def
proof (intro allI impI)
  fix r off v off' s
  assume a: "readLongArray r off = Inr (v, off')"
  then obtain len off1 where ri: "readInt r off = Inr (len, off1)"
    by (auto simp: readLongArray_def then_do_def split: sum.splits)
  note fw = reads_forwardD [OF reads_forward_readInt ri]
  from a ri have len: "\<not> len < 0" and rec: "readLongs r (nat len) off1 [] = Inr (v, off')"
    by (auto simp: readLongArray_def then_do_def split: if_splits)
  from readLongs_forward [OF rec fw(3), of s] fw len ri
  show "0 \<le> off \<and> off < off' \<and> off' \<le> byteLength r \<and> readLongArray (extend r s) off = Inr (v, off')"
    by (simp add: readLongArray_def then_do_def)
qed


lemma wrap_reads_back:
  assumes "reads_back f"
    and "then_do (f r off) (\<lambda>(v, off). Inr (g v, off)) = Inr (x, off')"
  shows "0 \<le> off \<and> off' \<le> byteLength r
    \<and> (0 \<le> off' \<longrightarrow> then_do (f (extend r s) off) (\<lambda>(v, off). Inr (g v, off)) = Inr (x, off'))"
proof -
  from assms(2) obtain v where f: "f r off = Inr (v, off')" and x: "x = g v"
    by (auto simp: then_do_def split: sum.splits)
  from reads_backD [OF assms(1) f] x show ?thesis by (auto simp: then_do_def)
qed

definition tag_frame :: "NBTReader \<Rightarrow> byte list \<Rightarrow> nat \<Rightarrow> bool" where
  "tag_frame r s fuel =
    (\<forall>ty off v off'. readTag r fuel ty off = Some (Inr (v, off')) \<longrightarrow>
       0 \<le> off \<and> off' \<le> byteLength r
       \<and> (0 \<le> off' \<longrightarrow> readTag (extend r s) fuel ty off = Some (Inr (v, off'))))"

definition list_frame :: "NBTReader \<Rightarrow> byte list \<Rightarrow> nat \<Rightarrow> bool" where
  "list_frame r s fuel =
    (\<forall>ty i len off acc v off'.
       readList_loop r fuel ty i len off acc = Some (Inr (v, off')) \<longrightarrow> off \<le> byteLength r \<longrightarrow>
       off' \<le> byteLength r
       \<and> (0 \<le> off' \<longrightarrow> 0 \<le> off \<and> readList_loop (extend r s) fuel ty i len off acc = Some (Inr (v, off'))))"

definition compound_frame :: "NBTReader \<Rightarrow> byte list \<Rightarrow> nat \<Rightarrow> bool" where
  "compound_frame r s fuel =
    (\<forall>off acc v off'. readCompound_loop r fuel off acc = Some (Inr (v, off')) \<longrightarrow>
       0 \<le> off \<and> 0 \<le> off' \<and> off' \<le> byteLength r
       \<and> readCompound_loop (extend r s) fuel off acc = Some (Inr (v, off')))"

lemma tag_frame_Suc:
  assumes T: "tag_frame r s fuel" and L: "list_frame r s fuel" and C: "compound_frame r s fuel"
  shows "tag_frame r s (Suc fuel)"
  unfolding tag_frame_def
proof (intro allI impI)
  fix ty off v off'
  assume a: "readTag r (Suc fuel) ty off = Some (Inr (v, off'))"
  let ?goal = "0 \<le> off \<and> off' \<le> byteLength r
       \<and> (0 \<le> off' \<longrightarrow> readTag (extend r s) (Suc fuel) ty off = Some (Inr (v, off')))"
  note fb = reads_forward_back
  show ?goal
  proof (cases ty)
    case TAG_END
    with a show ?thesis by simp
  next
    case TAG_BYTE
    with a wrap_reads_back [OF fb [OF reads_forward_readByte], of r off "\<lambda>v. ByteTag (Int8 v)" v off' s]
    show ?thesis by simp
  next
    case TAG_SHORT
    with a wrap_reads_back [OF fb [OF reads_forward_readShort], of r off "\<lambda>v. ShortTag (Int16 v)" v off' s]
    show ?thesis by simp
  next
    case TAG_INT
    with a wrap_reads_back [OF fb [OF reads_forward_readInt], of r off "\<lambda>v. IntTag (Int32 v)" v off' s]
    show ?thesis by simp
  next
    case TAG_LONG
    with a wrap_reads_back [OF fb [OF reads_forward_readLong], of r off LongTag v off' s]
    show ?thesis by simp
  next
    case TAG_FLOAT
    with a wrap_reads_back [OF fb [OF reads_forward_readFloat], of r off "\<lambda>v. FloatTag (Float32 v)" v off' s]
    show ?thesis by simp
  next
    case TAG_DOUBLE
    with a wrap_reads_back [OF fb [OF reads_forward_readDouble], of r off DoubleTag v off' s]
    show ?thesis by simp
  next
    case TAG_BYTE_ARRAY
    with a wrap_reads_back [OF reads_back_readByteArray, of r off ByteArrayTag v off' s]
    show ?thesis by simp
  next
    case TAG_STRING
    with a wrap_reads_back [OF reads_back_readString, of r off StringTag v off' s]
    show ?thesis by simp
  next
    case TAG_INT_ARRAY
    with a wrap_reads_back [OF fb [OF reads_forward_readIntArray], of r off IntArrayTag v off' s]
    show ?thesis by simp
  next
    case TAG_LONG_ARRAY
    with a wrap_reads_back [OF fb [OF reads_forward_readLongArray], of r off LongArrayTag v off' s]
    show ?thesis by simp
  next
    case TAG_COMPOUND
    with a have "readCompound_loop r fuel off [] = Some (Inr (v, off'))" by simp
    with C TAG_COMPOUND show ?thesis unfolding compound_frame_def by simp
  next
    case TAG_LIST
    with a obtain ety off1 where rt: "readTagType r off = Inr (ety, off1)"
      by (auto split: sum.splits)
    note f1 = reads_forwardD [OF reads_forward_readTagType rt]
    let ?len = "\<lambda>r. if varint r then readVarIntZigZag r off1 else readInt r off1"
    from a TAG_LIST rt obtain len off2 where rl: "?len r = Inr (len, off2)"
      by (auto split: sum.splits)
    have "readInt r off1 = Inr (len, off2)"
      using rl by (auto simp: readInt_def split: if_splits)
    note f2 = reads_forwardD [OF reads_forward_readInt this]
    have rl': "?len (extend r s) = Inr (len, off2)"
      using f2(4) [of s] by (auto simp: readInt_def split: if_splits)
    from a TAG_LIST rt rl have lp: "readList_loop r fuel ety 0 len off2 [] = Some (Inr (v, off'))"
      by (auto split: sum.splits)
    from L lp f2(3) have "off' \<le> byteLength r"
      and "0 \<le> off' \<Longrightarrow> readList_loop (extend r s) fuel ety 0 len off2 [] = Some (Inr (v, off'))"
      unfolding list_frame_def by blast+
    then show ?thesis using TAG_LIST f1 rl' by simp
  qed
qed

lemma list_frame_Suc:
  assumes T: "tag_frame r s fuel" and L: "list_frame r s fuel"
  shows "list_frame r s (Suc fuel)"
  unfolding list_frame_def
proof (intro allI impI)
  fix ty i len off acc v off'
  assume a: "readList_loop r (Suc fuel) ty i len off acc = Some (Inr (v, off'))"
    and b: "off \<le> byteLength r"
  show "off' \<le> byteLength r
       \<and> (0 \<le> off' \<longrightarrow> 0 \<le> off \<and> readList_loop (extend r s) (Suc fuel) ty i len off acc = Some (Inr (v, off')))"
  proof (cases "i < len")
    case False
    with a b show ?thesis by auto
  next
    case True
    with a obtain entry off1 where rt: "readTag r fuel ty off = Some (Inr (entry, off1))"
      by (auto split: option.splits sum.splits)
    with a True have lp: "readList_loop r fuel ty (i + 1) len off1 (acc @ [entry]) = Some (Inr (v, off'))"
      by simp
    from T rt have t1: "0 \<le> off" "off1 \<le> byteLength r"
      and t2: "0 \<le> off1 \<Longrightarrow> readTag (extend r s) fuel ty off = Some (Inr (entry, off1))"
      unfolding tag_frame_def by blast+
    from L lp t1(2) have l1: "off' \<le> byteLength r"
      and l2: "0 \<le> off' \<Longrightarrow> 0 \<le> off1"
      and l3: "0 \<le> off' \<Longrightarrow> readList_loop (extend r s) fuel ty (i + 1) len off1 (acc @ [entry]) = Some (Inr (v, off'))"
      unfolding list_frame_def by blast+
    show ?thesis using True t1 t2 l1 l2 l3 by simp
  qed
qed

lemma compound_frame_Suc:
  assumes T: "tag_frame r s fuel" and C: "compound_frame r s fuel"
  shows "compound_frame r s (Suc fuel)"
  unfolding compound_frame_def
proof (intro allI impI)
  fix off acc v off'
  assume a: "readCompound_loop r (Suc fuel) off acc = Some (Inr (v, off'))"
  then obtain ty off1 where rt: "readTagType r off = Inr (ty, off1)"
    by (auto split: sum.splits)
  note f1 = reads_forwardD [OF reads_forward_readTagType rt]
  show "0 \<le> off \<and> 0 \<le> off' \<and> off' \<le> byteLength r
       \<and> readCompound_loop (extend r s) (Suc fuel) off acc = Some (Inr (v, off'))"
  proof (cases "ty = TAG_END")
    case True
    with a rt f1 show ?thesis by auto
  next
    case False
    with a rt obtain name off2 where rs: "readString r off1 = Inr (name, off2)"
      by (auto split: sum.splits)
    with a rt False obtain entry off3 where re: "readTag r fuel ty off2 = Some (Inr (entry, off3))"
      by (auto split: option.splits sum.splits)
    with a rt False rs have lp: "readCompound_loop r fuel off3 (obj_set name entry acc) = Some (Inr (v, off'))"
      by simp
    from C lp have c: "0 \<le> off3" "0 \<le> off'" "off' \<le> byteLength r"
      "readCompound_loop (extend r s) fuel off3 (obj_set name entry acc) = Some (Inr (v, off'))"
      unfolding compound_frame_def by blast+
    from T re c(1) have t: "0 \<le> off2" "readTag (extend r s) fuel ty off2 = Some (Inr (entry, off3))"
      unfolding tag_frame_def by blast+
    from reads_backD(3) [OF reads_back_readString rs t(1)]
    have s': "readString (extend r s) off1 = Inr (name, off2)" .
    show ?thesis using False f1 c t s' by simp
  qed
qed

lemma frames: "tag_frame r s fuel \<and> list_frame r s fuel \<and> compound_frame r s fuel"
proof (induction fuel)
  case 0
  show ?case by (simp add: tag_frame_def list_frame_def compound_frame_def)
next
  case (Suc fuel)
  then show ?case
    using tag_frame_Suc list_frame_Suc compound_frame_Suc by blast
qed


lemma readRoot_extend:
  assumes comp: "opt_compression options = None" and strict: "opt_strict options"
    and ok: "readRoot decompress r fuel options = Some (Inr result)"
    and ne: "s \<noteq> []"
  shows "readRoot decompress (extend r s) fuel options
           = Some (Inl (TrailingBytes (byteLength r) (int (length s))
                          (result\<lparr>compression := None, bedrockLevel := None\<rparr>)))"
    and "readRoot decompress (extend r s) fuel (options\<lparr>opt_strict := False\<rparr>) = Some (Inr result)"
proof -
  let ?bed = "\<lambda>r. if truthy_bedrockLevel (opt_bedrockLevel options)
             then then_do (readUnsignedInt r 0) (\<lambda>(_, off). then_do (readUnsignedInt r off) (\<lambda>(_, off). Inr off))
             else Inr 0"
  from ok comp obtain off0 where bed: "?bed r = Inr off0"
    by (auto simp: readRoot_def split: sum.splits)
  have bed': "?bed (extend r s) = Inr off0"
  proof (cases "truthy_bedrockLevel (opt_bedrockLevel options)")
    case False
    with bed show ?thesis by simp
  next
    case True
    with bed obtain x o1 where u1: "readUnsignedInt r 0 = Inr (x, o1)"
      by (auto simp: then_do_def split: sum.splits)
    with bed True obtain y where u2: "readUnsignedInt r o1 = Inr (y, off0)"
      by (auto simp: then_do_def split: sum.splits)
    from reads_forwardD(4) [OF reads_forward_readUnsignedInt u1, of s]
      reads_forwardD(4) [OF reads_forward_readUnsignedInt u2, of s] True
    show ?thesis by (simp add: then_do_def)
  qed
  from ok comp bed obtain type off1 where rt: "readTagType r off0 = Inr (type, off1)"
    by (auto simp: readRoot_def split: sum.splits)
  note f1 = reads_forwardD [OF reads_forward_readTagType rt]
  from ok comp bed rt have ty: "\<not> (type \<noteq> TAG_LIST \<and> type \<noteq> TAG_COMPOUND)"
    by (auto simp: readRoot_def split: sum.splits if_splits)
  let ?name = "\<lambda>r. if reads_rootName (opt_rootName options)
                    then then_do (readString r off1) (\<lambda>(name, off). Inr (Some name, off))
                    else Inr (None, off1)"
  from ok comp bed rt ty obtain rootNameV off2 where nm: "?name r = Inr (rootNameV, off2)"
    by (auto simp: readRoot_def split: sum.splits if_splits)
  from ok comp bed rt ty nm obtain root' off3 where tg: "readTag r fuel type off2 = Some (Inr (root', off3))"
    by (auto simp: readRoot_def split: sum.splits if_splits option.splits)
  from ok comp bed rt ty nm tg strict have fin: "\<not> byteLength r > off3"
    and res: "result = \<lparr>data = root', rootName = rootNameV, endian = opt_endian options,
                       compression = Some (opt_compression options),
                       bedrockLevel = Some (opt_bedrockLevel options)\<rparr>"
    by (auto simp: readRoot_def split: sum.splits if_splits option.splits)
  from frames [of r s fuel] tg have t: "0 \<le> off2" "off3 \<le> byteLength r"
    "0 \<le> off3 \<Longrightarrow> readTag (extend r s) fuel type off2 = Some (Inr (root', off3))"
    unfolding tag_frame_def by blast+
  have off3: "off3 = byteLength r" using fin t(2) by simp
  then have "0 \<le> off3" by (simp add: byteLength_def)
  note tg' = t(3) [OF this]
  have nm': "?name (extend r s) = Inr (rootNameV, off2)"
  proof (cases "reads_rootName (opt_rootName options)")
    case False
    with nm show ?thesis by simp
  next
    case True
    with nm obtain name where rs: "readString r off1 = Inr (name, off2)" and rn: "rootNameV = Some name"
      by (auto simp: then_do_def split: sum.splits)
    from reads_backD(3) [OF reads_back_readString rs t(1), of s] True rn
    show ?thesis by (simp add: then_do_def)
  qed
  have len: "byteLength (extend r s) > off3" using ne off3 by simp
  show "readRoot decompress (extend r s) fuel options
           = Some (Inl (TrailingBytes (byteLength r) (int (length s))
                          (result\<lparr>compression := None, bedrockLevel := None\<rparr>)))"
    using comp bed' f1(4) [of s] ty nm' tg' strict len off3 res
    by (simp add: readRoot_def)
  show "readRoot decompress (extend r s) fuel (options\<lparr>opt_strict := False\<rparr>) = Some (Inr result)"
    using comp bed' f1(4) [of s] ty nm' tg' res
    by (simp add: readRoot_def)
qed

text \<open>
  C7. Let \<open>b\<close> decode successfully under a fully specified dialect with no compression,
  that is, \<^verbatim>\<open>read\<close> in its default strict mode returns a tree for it. Then for every
  non-empty suffix, the strict read of \<open>b @ suffix\<close> throws the trailing-bytes error
  whose byte offset is the length of \<open>b\<close>, whose count of unread bytes is the length of
  the suffix and whose cause is the tree read from \<open>b\<close> with its root name and endian,
  and the read with strict mode off returns exactly what the read of \<open>b\<close> returned.
\<close>

theorem strict_overrun_detection:
  assumes "read decompress fuel b
             \<lparr>p_rootName = Some rootName', p_endian = Some endian', p_compression = Some None,
              p_bedrockLevel = Some bedrockLevel', p_strict = Some True\<rparr> = Some (Inr result)"
    and "suffix \<noteq> []"
  shows "read decompress fuel (b @ suffix)
             \<lparr>p_rootName = Some rootName', p_endian = Some endian', p_compression = Some None,
              p_bedrockLevel = Some bedrockLevel', p_strict = Some True\<rparr>
           = Some (Inl (TrailingBytes (int (length b)) (int (length suffix))
                          (result\<lparr>compression := None, bedrockLevel := None\<rparr>)))
         \<and> read decompress fuel (b @ suffix)
             \<lparr>p_rootName = Some rootName', p_endian = Some endian', p_compression = Some None,
              p_bedrockLevel = Some bedrockLevel', p_strict = Some False\<rparr>
           = Some (Inr result)"
proof -
  let ?r = "\<lparr>reader_data = b, littleEndian = (endian' \<noteq> Big), varint = (endian' = LittleVarint)\<rparr>"
  let ?o = "\<lparr>opt_rootName = rootName', opt_endian = endian', opt_compression = None,
             opt_bedrockLevel = bedrockLevel', opt_strict = True\<rparr>"
  have ext: "extend ?r suffix = \<lparr>reader_data = b @ suffix, littleEndian = (endian' \<noteq> Big), varint = (endian' = LittleVarint)\<rparr>"
    by (simp add: extend_def)
  from assms(1) have ok: "readRoot decompress ?r fuel ?o = Some (Inr result)"
    by (simp add: read_pinned_def)
  from readRoot_extend [OF _ _ ok assms(2)] show ?thesis
    by (simp add: read_pinned_def ext byteLength_def)
qed

theorem strict_overrun_detection_witness:
  "read (\<lambda>d c. Inl CompressionFailure) (Suc (Suc (Suc 0)))
       ([0x0A, 0x00, 0x00, 0x01, 0x00, 0x01, 0x78, 0x7F, 0x00] @ [0x2A, 0x2B])
       \<lparr>p_rootName = Some (RootNameBool True), p_endian = Some Big, p_compression = Some None,
        p_bedrockLevel = Some BedrockLevelNull, p_strict = Some True\<rparr>
     = Some (Inl (TrailingBytes 9 2
                    \<lparr>data = CompoundTag [(str ''x'', ByteTag 127)], rootName = Some [], endian = Big,
                     compression = None, bedrockLevel = None\<rparr>))
   \<and> read (\<lambda>d c. Inl CompressionFailure) (Suc (Suc (Suc 0)))
       ([0x0A, 0x00, 0x00, 0x01, 0x00, 0x01, 0x78, 0x7F, 0x00] @ [0x2A, 0x2B])
       \<lparr>p_rootName = Some (RootNameBool True), p_endian = Some Big, p_compression = Some None,
        p_bedrockLevel = Some BedrockLevelNull, p_strict = Some False\<rparr>
     = Some (Inr \<lparr>data = CompoundTag [(str ''x'', ByteTag 127)], rootName = Some [], endian = Big,
                  compression = Some None, bedrockLevel = Some BedrockLevelNull\<rparr>)"
proof -
  have ok: "read (\<lambda>d c. Inl CompressionFailure) (Suc (Suc (Suc 0)))
       [0x0A, 0x00, 0x00, 0x01, 0x00, 0x01, 0x78, 0x7F, 0x00]
       \<lparr>p_rootName = Some (RootNameBool True), p_endian = Some Big, p_compression = Some None,
        p_bedrockLevel = Some BedrockLevelNull, p_strict = Some True\<rparr>
     = Some (Inr \<lparr>data = CompoundTag [(str ''x'', ByteTag 127)], rootName = Some [], endian = Big,
                  compression = Some None, bedrockLevel = Some BedrockLevelNull\<rparr>)"
    by (simp add: read_pinned_def readRoot_def readString_def readUnsignedShort_def subarray_def
        obj_set_def array_index_def is_digit_def str_def Int8_in_range reader_eval)
  have ne: "[0x2A, 0x2B :: byte] \<noteq> []" by simp
  from strict_overrun_detection [OF ok ne] show ?thesis by simp
qed

text \<open>
  The hypothesis is the strict read. A buffer that is accepted only with strict mode off
  can end with its cursor before the start of the buffer, and then the tree depends on
  what follows: the list below holds one byte array of length \<open>-11\<close>, whose
  \<^verbatim>\<open>subarray(10, -1)\<close> is empty in the ten-byte buffer and two bytes long once three
  bytes are appended.
\<close>

lemma lenient_read_sees_suffix:
  "read decompress (Suc (Suc (Suc fuel))) [0x09, 0x07, 0x00, 0x00, 0x00, 0x01, 0xFF, 0xFF, 0xFF, 0xF5]
       \<lparr>p_rootName = Some RootNameNull, p_endian = Some Big, p_compression = Some None,
        p_bedrockLevel = Some BedrockLevelNull, p_strict = Some False\<rparr>
     = Some (Inr \<lparr>data = ListTag [ByteArrayTag []], rootName = None, endian = Big,
                  compression = Some None, bedrockLevel = Some BedrockLevelNull\<rparr>)"
  "read decompress (Suc (Suc (Suc fuel)))
       ([0x09, 0x07, 0x00, 0x00, 0x00, 0x01, 0xFF, 0xFF, 0xFF, 0xF5] @ [0x01, 0x02, 0x03])
       \<lparr>p_rootName = Some RootNameNull, p_endian = Some Big, p_compression = Some None,
        p_bedrockLevel = Some BedrockLevelNull, p_strict = Some False\<rparr>
     = Some (Inr \<lparr>data = ListTag [ByteArrayTag [1, 2]], rootName = None, endian = Big,
                  compression = Some None, bedrockLevel = Some BedrockLevelNull\<rparr>)"
  by (simp_all add: read_pinned_def readRoot_def readByteArray_def readInt_def subarray_def reader_eval)

section \<open>Results on the SNBT writer\<close>

text \<open>
  The spec's words: the characters a quote style has to escape are the backslash and the
  quote itself, and the quoted form puts a backslash before each of them.
\<close>

definition escapes_needed :: "16 word \<Rightarrow> jsstring \<Rightarrow> nat" where
  "escapes_needed q v = count_list v q + count_list v 0x5C"

fun escape_char :: "16 word \<Rightarrow> 16 word \<Rightarrow> jsstring" where
  "escape_char q c = (if c = q \<or> c = 0x5C then [0x5C, c] else [c])"

definition quoted_form :: "16 word \<Rightarrow> jsstring \<Rightarrow> jsstring" where
  "quoted_form q v = q # concat (map (escape_char q) v) @ [q]"

lemma length_replace_escape:
  "length (replace_escape cls v) = length v + length (filter cls v)"
  by (induction v) (simp_all add: replace_escape_def)

lemma count_filter_quote:
  "q \<noteq> 0x5C \<Longrightarrow> length (filter (\<lambda>c. c = q \<or> c = 0x5C) v) = escapes_needed q v"
  by (induction v) (auto simp: escapes_needed_def)

lemma replace_escape_quoted: "q # replace_escape (\<lambda>c. c = q \<or> c = 0x5C) v @ [q] = quoted_form q v"
  by (induction v) (simp_all add: quoted_form_def replace_escape_def)

text \<open>
  C8. For every string, the SNBT writer emits the single-quoted form exactly when it
  needs strictly fewer escapes than the double-quoted form, which is exactly when the
  string holds strictly fewer single quotes than double quotes, and the double-quoted
  form otherwise, ties included; in the chosen form the backslash and the chosen quote,
  and nothing else, are each preceded by a backslash.
\<close>

theorem writeString_quote_choice:
  "snbt_writeString v =
     (if escapes_needed 0x27 v < escapes_needed 0x22 v then quoted_form 0x27 v else quoted_form 0x22 v)
   \<and> (escapes_needed 0x27 v < escapes_needed 0x22 v \<longleftrightarrow> count_list v 0x27 < count_list v 0x22)"
proof -
  have 1: "length (replace_escape (\<lambda>c. c = 0x27 \<or> c = 0x5C) v) = length v + escapes_needed 0x27 v"
    by (simp add: length_replace_escape count_filter_quote)
  have 2: "length (replace_escape (\<lambda>c. c = 0x22 \<or> c = 0x5C) v) = length v + escapes_needed 0x22 v"
    by (simp add: length_replace_escape count_filter_quote)
  show ?thesis
    unfolding snbt_writeString_def Let_def 1 2
    using replace_escape_quoted [of "0x27" v] replace_escape_quoted [of "0x22" v]
    by (simp add: escapes_needed_def)
qed

section \<open>Results on the SNBT parser\<close>

lemma str_simps: "str [] = []" "str (c # cs) = of_char c # str cs"
  by (simp_all add: str_def)

lemmas snbt_cursor =
  snbt_allocate_def peek_def skipWhitespace_def skipSeperator_def expect_def is_whitespace_def
  readUnquotedString_def is_unquoted_char_def is_digit_def snbt_readString_def

lemmas snbt_token =
  read_token_def match_integer_def match_float_def split_suffix_def is_integer_body_def
  is_float_body_def strip_sign_def test_boolean_def Boolean_of_string_def

text \<open>
  C3 fails on the code. \<^verbatim>\<open>#readTag\<close> returns \<^verbatim>\<open>Boolean(string)\<close> for a token of the
  boolean pattern, and a non-empty string is truthy: the token \<^verbatim>\<open>false\<close> is read as
  the boolean \<^verbatim>\<open>true\<close>, which the binary writer encodes as the byte 1, not 0. The
  rest of the claim holds: \<^verbatim>\<open>true\<close> is read as \<^verbatim>\<open>true\<close> and encodes as 1, and
  another capitalization is a string.
\<close>

theorem false_token_reads_as_true:
  "parse num (Suc (Suc 0)) (str ''{a:false}'') = Some (Inr (CompoundTag [(str ''a'', BooleanTag True)]))
   \<and> writeTag le (BooleanTag True) = Inr [1]
   \<and> parse num (Suc (Suc 0)) (str ''{a:true}'') = Some (Inr (CompoundTag [(str ''a'', BooleanTag True)]))
   \<and> parse num (Suc (Suc 0)) (str ''{a:False}'')
       = Some (Inr (CompoundTag [(str ''a'', StringTag (str ''False''))]))"
  by (simp add: parse_def snbt_cursor snbt_token str_simps finishCompound_def obj_set_def
      array_index_def writeByte_def)

section \<open>The SNBT round trip\<close>

subsection \<open>The cursor\<close>

text \<open>
  The parser's tests on the cursor, in terms of the text that remains from the cursor on.
\<close>

lemma drop_advance: "drop off data' = s @ rest \<Longrightarrow> drop (off + length s) data' = rest"
  by (metis add.commute append_eq_conv_conj drop_drop)

lemma drop_advance1: "drop off data' = c # rest \<Longrightarrow> drop (Suc off) data' = rest"
  using drop_advance [of off data' "[c]" rest] by simp

lemma drop_Cons_less: "drop off data' = c # rest \<Longrightarrow> off < length data'"
  by (metis drop_all list.distinct(1) not_le)

lemma nth_of_drop: "drop off data' = c # rest \<Longrightarrow> data' ! off = c"
  by (metis drop_Cons_less Cons_nth_drop_Suc list.inject)

lemma allocate1_Cons: "drop off data' = c # rest \<Longrightarrow> snbt_allocate data' off (Suc 0)"
  using drop_Cons_less [of off data' c rest] by (simp add: snbt_allocate_def)

lemma allocate1_Nil: "drop off data' = [] \<Longrightarrow> \<not> snbt_allocate data' off (Suc 0)"
  by (simp add: snbt_allocate_def)

lemma peek_Cons: "drop off data' = c # rest \<Longrightarrow> peek data' off = Some c"
  using drop_Cons_less [of off data' c rest] nth_of_drop [of off data' c rest] by (simp add: peek_def)

lemma peek_Nil: "drop off data' = [] \<Longrightarrow> peek data' off = None"
  by (simp add: peek_def)

lemma skipWhitespace_Cons: "drop off data' = c # rest \<Longrightarrow> \<not> is_whitespace c \<Longrightarrow> skipWhitespace data' off = off"
  by (simp add: skipWhitespace_def)

lemma expect_Cons: "drop off data' = c # rest \<Longrightarrow> expect data' c off = Inr (Suc off)"
  by (simp add: expect_def allocate1_Cons peek_Cons)

subsection \<open>Decimal numerals\<close>

definition digit :: "nat \<Rightarrow> 16 word" where "digit n = of_nat (48 + n)"

lemma unat_digit: "n < 10 \<Longrightarrow> unat (digit n) = 48 + n"
proof -
  assume "n < 10"
  have "unat (of_nat (48 + n) :: 16 word) = (48 + n) mod 2 ^ LENGTH(16)"
    by (simp only: unat_of_nat)
  with \<open>n < 10\<close> show ?thesis by (simp add: digit_def)
qed

lemma is_digit_unat: "is_digit c \<longleftrightarrow> 48 \<le> unat c \<and> unat c \<le> 57"
  by (simp add: is_digit_def word_le_nat_alt)

lemma is_digit_digit: "n < 10 \<Longrightarrow> is_digit (digit n)"
  by (simp add: is_digit_unat unat_digit)

lemma digit_neq_zero: "n < 10 \<Longrightarrow> 0 < n \<Longrightarrow> digit n \<noteq> 0x30"
proof
  assume "n < 10" "0 < n" "digit n = 0x30"
  then have "unat (digit n) = 48" by simp
  with \<open>n < 10\<close> \<open>0 < n\<close> show False by (simp add: unat_digit)
qed

lemma show_nat_digit: "n < 10 \<Longrightarrow> show_nat n = [digit n]"
  by (subst show_nat.simps) (simp add: digit_def)

lemma show_nat_step: "\<not> n < 10 \<Longrightarrow> show_nat n = show_nat (n div 10) @ [digit (n mod 10)]"
  by (subst show_nat.simps) (simp add: digit_def)

lemma show_nat_nonempty: "show_nat n \<noteq> []"
  by (subst show_nat.simps) simp

lemma show_nat_digits: "list_all is_digit (show_nat n)"
proof (induction n rule: show_nat.induct)
  case (1 n)
  then show ?case by (cases "n < 10") (simp_all add: show_nat_digit show_nat_step is_digit_digit)
qed

lemma digits_value_snoc: "digits_value (ds @ [c]) = digits_value ds * 10 + (unat c - 48)"
  by (simp add: digits_value_def)

lemma digits_value_show_nat: "digits_value (show_nat n) = n"
proof (induction n rule: show_nat.induct)
  case (1 n)
  show ?case
  proof (cases "n < 10")
    case True
    then show ?thesis by (simp add: show_nat_digit digits_value_def unat_digit)
  next
    case False
    with 1 show ?thesis by (simp add: show_nat_step digits_value_snoc unat_digit)
  qed
qed

lemma hd_show_nat: "0 < n \<Longrightarrow> hd (show_nat n) \<noteq> 0x30"
proof (induction n rule: show_nat.induct)
  case (1 n)
  show ?case
  proof (cases "n < 10")
    case True
    with 1(2) show ?thesis by (simp add: show_nat_digit digit_neq_zero)
  next
    case False
    then have "0 < n div 10" by simp
    with 1 False show ?thesis by (simp add: show_nat_step show_nat_nonempty)
  qed
qed

lemma show_nat_0: "show_nat 0 = [0x30]"
  by (simp add: show_nat_digit digit_def)

lemma last_show_nat: "is_digit (last (show_nat n))"
  using show_nat_digits [of n] show_nat_nonempty [of n] by (simp add: list_all_iff)

lemma hd_show_nat_digit: "is_digit (hd (show_nat n))"
  using show_nat_digits [of n] show_nat_nonempty [of n] by (simp add: list_all_iff)

subsection \<open>Integer literals\<close>

lemma digit_not_sign: "is_digit c \<Longrightarrow> c \<noteq> 0x2D \<and> c \<noteq> 0x2B"
  by (auto simp: is_digit_def)

lemma strip_sign_show_int: "strip_sign (show_int v) = show_nat (nat \<bar>v\<bar>)"
proof (cases "v < 0")
  case True
  then show ?thesis by (simp add: show_int_def strip_sign_def abs_if)
next
  case False
  obtain c rest where sn: "show_nat (nat v) = c # rest" using show_nat_nonempty by (cases "show_nat (nat v)") auto
  with hd_show_nat_digit [of "nat v"] have "is_digit c" by simp
  with sn False show ?thesis using digit_not_sign [of c] by (simp add: show_int_def strip_sign_def abs_if)
qed

lemma is_integer_body_show_int: "is_integer_body (show_int v)"
proof (cases "v = 0")
  case True
  then show ?thesis by (simp add: is_integer_body_def strip_sign_show_int show_nat_0)
next
  case False
  then have "0 < nat \<bar>v\<bar>" by simp
  then show ?thesis
    by (simp add: is_integer_body_def strip_sign_show_int show_nat_nonempty show_nat_digits hd_show_nat)
qed

lemma integer_of_literal_show_int: "integer_of_literal (show_int v) = v"
proof (cases "v < 0")
  case True
  then show ?thesis by (simp add: show_int_def integer_of_literal_def digits_value_show_nat)
next
  case False
  obtain c rest where sn: "show_nat (nat v) = c # rest" using show_nat_nonempty by (cases "show_nat (nat v)") auto
  with hd_show_nat_digit [of "nat v"] have d: "is_digit c" by simp
  have "digits_value (c # rest) = nat v" using digits_value_show_nat [of "nat v"] sn by simp
  with sn False show ?thesis using digit_not_sign [OF d] by (simp add: show_int_def integer_of_literal_def)
qed

lemma show_int_nonempty: "show_int v \<noteq> []"
  by (simp add: show_int_def show_nat_nonempty)

lemma last_show_int: "is_digit (last (show_int v))"
  by (simp add: show_int_def show_nat_nonempty last_show_nat)

lemma is_digit_unquoted: "is_digit c \<Longrightarrow> is_unquoted_char c"
  by (simp add: is_unquoted_char_def)

lemma show_int_unquoted: "list_all is_unquoted_char (show_int v)"
  using show_nat_digits [of "nat v"] show_nat_digits [of "nat (- v)"]
  by (auto simp: show_int_def list_all_iff is_digit_unquoted is_unquoted_char_def)


subsection \<open>Unquoted tokens\<close>

lemma readUnquotedString_token:
  assumes "drop off data' = tok @ post" "tok \<noteq> []" "list_all is_unquoted_char tok"
    and "post = [] \<or> \<not> is_unquoted_char (hd post)"
  shows "readUnquotedString data' off = Some (tok, off + length tok)"
proof -
  have "takeWhile is_unquoted_char (tok @ post) = tok"
    using assms(3,4) by (cases post) (auto simp: list_all_iff takeWhile_append2 intro: takeWhile_eq_all_conv [THEN iffD2])
  then show ?thesis using assms(1,2) by (simp add: readUnquotedString_def)
qed

lemma split_suffix_snoc: "cls c \<Longrightarrow> split_suffix cls (v @ [c]) = (v, [c])"
  by (simp add: split_suffix_def)

lemma split_suffix_none: "v \<noteq> [] \<Longrightarrow> \<not> cls (last v) \<Longrightarrow> split_suffix cls v = (v, [])"
  by (simp add: split_suffix_def)

lemma digit_not_letter: "is_digit c \<Longrightarrow> c \<notin> set (str ''blsBLS'')"
  by (auto simp: is_digit_def str_simps)

lemma match_integer_show_int: "match_integer (show_int v) = Some (show_int v, [])"
  using split_suffix_none [OF show_int_nonempty, of "\<lambda>c. c \<in> set (str ''blsBLS'')" v]
    digit_not_letter [OF last_show_int, of v]
  by (simp add: match_integer_def is_integer_body_show_int)

lemma match_integer_suffix:
  "c \<in> set (str ''blsBLS'') \<Longrightarrow> match_integer (show_int v @ [c]) = Some (show_int v, [c])"
  using split_suffix_snoc [of "\<lambda>c. c \<in> set (str ''blsBLS'')" c "show_int v"]
  by (simp add: match_integer_def is_integer_body_show_int)

lemma Number_of_integer_small:
  "- 2147483648 \<le> i \<Longrightarrow> i < 2147483648 \<Longrightarrow> Number_of_integer i = Num (of_int i)"
  by (simp add: Number_of_integer_def abs_if)

lemma token_byte: "- 128 \<le> v \<Longrightarrow> v < 128 \<Longrightarrow> read_token num (show_int v @ str ''b'') = ByteTag v"
  using Int8_in_range [of v] match_integer_suffix [of "0x62" v]
  by (simp add: read_token_def str_simps Number_of_integer_small integer_of_literal_show_int Int8_def)

lemma token_short: "- 32768 \<le> v \<Longrightarrow> v < 32768 \<Longrightarrow> read_token num (show_int v @ str ''s'') = ShortTag v"
  using Int16_in_range [of v] match_integer_suffix [of "0x73" v]
  by (simp add: read_token_def str_simps Number_of_integer_small integer_of_literal_show_int Int16_def)

lemma token_int: "- 2147483648 \<le> v \<Longrightarrow> v < 2147483648 \<Longrightarrow> read_token num (show_int v) = IntTag v"
  using Int32_in_range [of v] match_integer_show_int [of v]
  by (simp add: read_token_def str_simps Number_of_integer_small integer_of_literal_show_int Int32_def)

lemma token_long: "read_token num (show_int v @ str ''l'') = LongTag v"
  using match_integer_suffix [of "0x6C" v]
  by (simp add: read_token_def str_simps integer_of_literal_show_int)

lemma token_true: "read_token num (str ''true'') = BooleanTag True"
  by (simp add: read_token_def match_integer_def match_float_def split_suffix_def is_integer_body_def
      is_float_body_def strip_sign_def test_boolean_def Boolean_of_string_def str_simps is_digit_def)


subsection \<open>Float literals\<close>

lemma strip_sign_snoc: "v \<noteq> [] \<Longrightarrow> strip_sign (v @ [c]) = strip_sign v @ [c]"
  by (cases v) (simp_all add: strip_sign_def)

lemma strip_sign_cases: "v = strip_sign v \<or> (\<exists>c. (c = 0x2D \<or> c = 0x2B) \<and> v = c # strip_sign v)"
  by (cases v) (auto simp: strip_sign_def)

lemma unquoted_strip_sign:
  assumes "list_all is_unquoted_char (strip_sign v)" shows "list_all is_unquoted_char v"
proof -
  from strip_sign_cases [of v] consider "v = strip_sign v"
    | c where "c = 0x2D \<or> c = 0x2B" "v = c # strip_sign v" by blast
  then show ?thesis
  proof cases
    case 1
    with assms show ?thesis by simp
  next
    case 2
    from 2(1) have "is_unquoted_char c" by (auto simp: is_unquoted_char_def)
    with assms have "list_all is_unquoted_char (c # strip_sign v)" by simp
    with 2(2) show ?thesis by simp
  qed
qed

lemma digits_unquoted: "list_all is_digit v \<Longrightarrow> list_all is_unquoted_char v"
  by (simp add: list_all_iff is_digit_unquoted)

lemma float_body_parts:
  assumes "is_float_body v"
  shows "strip_sign v \<noteq> []" and "list_all is_unquoted_char v"
proof -
  define ds where "ds = strip_sign v"
  define P where "P = (\<lambda>c :: 16 word. c \<noteq> 0x65 \<and> c \<noteq> 0x45)"
  define m where "m = takeWhile P ds"
  define rest where "rest = dropWhile P ds"
  from assms have a: "list_all (\<lambda>c. is_digit c \<or> c = 0x2E) m" and d: "list_ex is_digit m"
    and b: "rest = [] \<or> (strip_sign (tl rest) \<noteq> [] \<and> list_all is_digit (strip_sign (tl rest)))"
    by (simp_all add: is_float_body_def Let_def ds_def P_def m_def rest_def)
  have ds: "ds = m @ rest" by (simp add: m_def rest_def)
  from d have "m \<noteq> []" by auto
  with ds show "strip_sign v \<noteq> []" by (simp add: ds_def)
  from a have um: "list_all is_unquoted_char m"
    by (auto simp: list_all_iff is_unquoted_char_def)
  have ur: "list_all is_unquoted_char rest"
  proof (cases "rest = []")
    case True
    then show ?thesis by simp
  next
    case False
    then have "\<not> P (hd rest)" unfolding rest_def by (rule hd_dropWhile)
    then have "is_unquoted_char (hd rest)" by (auto simp: P_def is_unquoted_char_def)
    moreover from b False have "list_all is_unquoted_char (tl rest)"
      by (auto intro: unquoted_strip_sign digits_unquoted)
    ultimately show ?thesis using False by (cases rest) simp_all
  qed
  from um ur ds have "list_all is_unquoted_char (strip_sign v)" by (simp add: ds_def)
  then show "list_all is_unquoted_char v" by (rule unquoted_strip_sign)
qed

lemma float_body_nonempty: "is_float_body v \<Longrightarrow> v \<noteq> []"
  using float_body_parts(1) [of v] by (auto simp: strip_sign_def)

lemma match_integer_letter:
  assumes "v \<noteq> []" "c = 0x64 \<or> c = 0x66"
  shows "match_integer (v @ [c]) = None"
proof -
  have nd: "\<not> is_digit c" using assms(2) by (auto simp: is_digit_def)
  have "c \<notin> set (str ''blsBLS'')" using assms(2) by (auto simp: str_simps)
  then have sp: "split_suffix (\<lambda>c. c \<in> set (str ''blsBLS'')) (v @ [c]) = (v @ [c], [])"
    by (simp add: split_suffix_def)
  have "strip_sign (v @ [c]) = strip_sign v @ [c]" using assms(1) by (rule strip_sign_snoc)
  moreover have "c \<noteq> 0x30" using assms(2) by auto
  ultimately have "\<not> is_integer_body (v @ [c])" using nd
    by (auto simp: is_integer_body_def Let_def append_eq_Cons_conv)
  with sp show ?thesis by (simp add: match_integer_def)
qed

lemma match_float_suffix:
  "is_float_body v \<Longrightarrow> c \<in> set (str ''dfDF'') \<Longrightarrow> match_float (v @ [c]) = Some (v, [c])"
  using split_suffix_snoc [of "\<lambda>c. c \<in> set (str ''dfDF'')" c v]
  by (simp add: match_float_def)

lemma token_float: "is_float_body v \<Longrightarrow> read_token num (v @ str ''f'') = FloatTag (num v)"
  using match_integer_letter [of v "0x66"] match_float_suffix [of v "0x66"] float_body_nonempty [of v]
  by (simp add: read_token_def str_simps Float32_def new_Float_def)

lemma token_double: "is_float_body v \<Longrightarrow> read_token num (v @ str ''d'') = DoubleTag (num v)"
  using match_integer_letter [of v "0x64"] match_float_suffix [of v "0x64"] float_body_nonempty [of v]
  by (simp add: read_token_def str_simps)

subsection \<open>Quoted strings\<close>

lemma slice_Suc:
  "lastPos \<le> off \<Longrightarrow> off < length data' \<Longrightarrow> slice data' lastPos (Suc off) = slice data' lastPos off @ [data' ! off]"
proof -
  assume a: "lastPos \<le> off" "off < length data'"
  then have "Suc off - lastPos = Suc (off - lastPos)" by simp
  moreover have "off - lastPos < length (drop lastPos data')" using a by simp
  moreover have "drop lastPos data' ! (off - lastPos) = data' ! off" using a by simp
  ultimately show ?thesis by (simp add: slice_def take_Suc_conv_app_nth)
qed

lemma slice_empty: "slice data' off off = []"
  by (simp add: slice_def)

lemma readQuotedString_loop_value:
  "q \<noteq> 0x5C \<Longrightarrow> lastPos \<le> off
    \<Longrightarrow> drop off data' = replace_escape (\<lambda>c. c = q \<or> c = 0x5C) v @ q # post
    \<Longrightarrow> readQuotedString_loop data' q lastPos string off
        = Inr (string @ slice data' lastPos off @ v,
               off + length (replace_escape (\<lambda>c. c = q \<or> c = 0x5C) v) + 1)"
proof (induction v arbitrary: lastPos off string)
  case Nil
  then have d: "drop off data' = q # post" by (simp add: replace_escape_def)
  show ?case
    using Nil(1) allocate1_Cons [OF d] nth_of_drop [OF d]
    by (subst readQuotedString_loop.simps) (simp add: replace_escape_def Let_def)
next
  case (Cons c v)
  let ?cls = "\<lambda>c. c = q \<or> c = 0x5C"
  show ?case
  proof (cases "?cls c")
    case True
    with Cons.prems(3) have d: "drop off data' = 0x5C # c # replace_escape ?cls v @ q # post"
      by (simp add: replace_escape_def)
    then have d1: "drop (Suc off) data' = c # replace_escape ?cls v @ q # post" by (rule drop_advance1)
    then have d2: "drop (Suc (Suc off)) data' = replace_escape ?cls v @ q # post" by (rule drop_advance1)
    have ih: "readQuotedString_loop data' q (Suc (Suc off)) (string @ slice data' lastPos off @ [c]) (Suc (Suc off))
        = Inr ((string @ slice data' lastPos off @ [c]) @ slice data' (Suc (Suc off)) (Suc (Suc off)) @ v,
               Suc (Suc off) + length (replace_escape ?cls v) + 1)"
      by (rule Cons.IH [OF Cons.prems(1) order_refl d2])
    show ?thesis
      using True allocate1_Cons [OF d] nth_of_drop [OF d] allocate1_Cons [OF d1] nth_of_drop [OF d1] ih
      by (subst readQuotedString_loop.simps) (auto simp: replace_escape_def Let_def slice_empty)
  next
    case False
    with Cons.prems(3) have d: "drop off data' = c # replace_escape ?cls v @ q # post"
      by (simp add: replace_escape_def)
    then have d1: "drop (Suc off) data' = replace_escape ?cls v @ q # post" by (rule drop_advance1)
    have le: "lastPos \<le> Suc off" using Cons.prems(2) by simp
    have ih: "readQuotedString_loop data' q lastPos string (Suc off)
        = Inr (string @ slice data' lastPos (Suc off) @ v, Suc off + length (replace_escape ?cls v) + 1)"
      by (rule Cons.IH [OF Cons.prems(1) le d1])
    show ?thesis
      using False allocate1_Cons [OF d] nth_of_drop [OF d] ih slice_Suc [OF Cons.prems(2) drop_Cons_less [OF d]]
      by (subst readQuotedString_loop.simps) (auto simp: replace_escape_def Let_def)
  qed
qed

lemma snbt_writeString_form:
  "\<exists>q. (q = 0x22 \<or> q = 0x27) \<and> snbt_writeString v = q # replace_escape (\<lambda>c. c = q \<or> c = 0x5C) v @ [q]"
  by (simp add: snbt_writeString_def Let_def)

lemma readQuotedString_value:
  assumes "drop off data' = snbt_writeString v @ post"
  shows "readQuotedString data' (data' ! off) off = Inr (v, off + length (snbt_writeString v))"
    and "data' ! off = 0x22 \<or> data' ! off = 0x27"
proof -
  from snbt_writeString_form [of v] obtain q where q: "q = 0x22 \<or> q = 0x27"
    and w: "snbt_writeString v = q # replace_escape (\<lambda>c. c = q \<or> c = 0x5C) v @ [q]" by blast
  from assms w have d: "drop off data' = q # replace_escape (\<lambda>c. c = q \<or> c = 0x5C) v @ q # post" by simp
  then have d1: "drop (Suc off) data' = replace_escape (\<lambda>c. c = q \<or> c = 0x5C) v @ q # post"
    by (rule drop_advance1)
  from q have "q \<noteq> 0x5C" by auto
  from readQuotedString_loop_value [OF this order_refl d1, of "[]"] nth_of_drop [OF d] w
  show "readQuotedString data' (data' ! off) off = Inr (v, off + length (snbt_writeString v))"
    by (simp add: readQuotedString_def slice_empty)
  from q nth_of_drop [OF d] show "data' ! off = 0x22 \<or> data' ! off = 0x27" by simp
qed


subsection \<open>The trees that are read back\<close>

text \<open>
  The round trip is proved for the trees that \<open>representable\<close> accepts. Integers lie
  in the range of their tag, in a tag and in a typed array. A float \<open>x\<close> is one that the
  platform prints as a literal of the float pattern and reads back as \<open>x\<close>; \<open>fmt\<close>
  and \<open>num\<close> are the platform's two conversions. Every compound key is non-empty, and
  the entries of a compound are in the order in which an object enumerates its own keys
  (\<open>own_order\<close>): each key is new, none is \<^verbatim>\<open>__proto__\<close>, and before a key that
  is an array index come only smaller array indices; assigning such entries one by one
  to an empty object gives them back (\<open>own_order_foldl\<close>). A boolean is
  \<^verbatim>\<open>true\<close>, and no list starts with a string whose first character is a
  semicolon: the parser reads the text of both back as something else. \<open>fuel_of\<close>
  is fuel enough for the parser on the text of a tree.
\<close>

definition semicolon_first :: "tag list \<Rightarrow> bool" where
  "semicolon_first ts = (case ts of StringTag (c # _) # _ \<Rightarrow> c = 0x3B | _ \<Rightarrow> False)"

fun ordered_keys :: "jsstring list \<Rightarrow> jsstring list \<Rightarrow> bool" where
  "ordered_keys seen [] = True"
| "ordered_keys seen (k # ks) =
    (k \<noteq> str ''__proto__'' \<and> k \<notin> set seen
     \<and> (case array_index k of
          None \<Rightarrow> True
        | Some i \<Rightarrow> list_all (\<lambda>k'. case array_index k' of Some j \<Rightarrow> j < i | None \<Rightarrow> False) seen)
     \<and> ordered_keys (seen @ [k]) ks)"

definition own_order :: "(jsstring \<times> tag) list \<Rightarrow> bool" where
  "own_order es = ordered_keys [] (map fst es)"

lemma insert_index_last:
  "list_all (\<lambda>k'. case array_index k' of Some j \<Rightarrow> j < i | None \<Rightarrow> False) (map fst acc)
    \<Longrightarrow> insert_index i kv acc = acc @ [kv]"
  by (induction acc) (auto split: option.splits)

lemma obj_set_last:
  assumes "k \<noteq> str ''__proto__''" "k \<notin> set (map fst acc)"
    and "case array_index k of
          None \<Rightarrow> True
        | Some i \<Rightarrow> list_all (\<lambda>k'. case array_index k' of Some j \<Rightarrow> j < i | None \<Rightarrow> False) (map fst acc)"
  shows "obj_set k v acc = acc @ [(k, v)]"
  using assms by (auto simp: obj_set_def insert_index_last split: option.splits)

lemma ordered_keys_foldl:
  "ordered_keys (map fst acc) (map fst es) \<Longrightarrow> foldl (\<lambda>a (k, v). obj_set k v a) acc es = acc @ es"
proof (induction es arbitrary: acc)
  case Nil
  then show ?case by simp
next
  case (Cons e es)
  obtain k v where e: "e = (k, v)" by (cases e)
  from Cons.prems e have "obj_set k v acc = acc @ [(k, v)]" by (intro obj_set_last) simp_all
  moreover from Cons.prems e have "ordered_keys (map fst (acc @ [(k, v)])) (map fst es)" by simp
  ultimately show ?case using Cons.IH [of "acc @ [(k, v)]"] e by simp
qed

lemma own_order_foldl: "own_order es \<Longrightarrow> foldl (\<lambda>a (k, v). obj_set k v a) [] es = es"
  using ordered_keys_foldl [of "[]" es] by (simp add: own_order_def)

fun representable :: "(jsnumber \<Rightarrow> jsstring) \<Rightarrow> (jsstring \<Rightarrow> jsnumber) \<Rightarrow> tag \<Rightarrow> bool"
  and representable_list :: "(jsnumber \<Rightarrow> jsstring) \<Rightarrow> (jsstring \<Rightarrow> jsnumber) \<Rightarrow> tag list \<Rightarrow> bool"
  and representable_entries :: "(jsnumber \<Rightarrow> jsstring) \<Rightarrow> (jsstring \<Rightarrow> jsnumber) \<Rightarrow> (jsstring \<times> tag) list \<Rightarrow> bool"
where
  "representable fmt num (BooleanTag b) = b"
| "representable fmt num (ByteTag v) = (- 128 \<le> v \<and> v < 128)"
| "representable fmt num (ShortTag v) = (- 32768 \<le> v \<and> v < 32768)"
| "representable fmt num (IntTag v) = (- 2147483648 \<le> v \<and> v < 2147483648)"
| "representable fmt num (LongTag v) = True"
| "representable fmt num (FloatTag v) = (is_float_body (fmt v) \<and> num (fmt v) = v)"
| "representable fmt num (DoubleTag v) = (is_float_body (fmt v) \<and> num (fmt v) = v)"
| "representable fmt num (ByteArrayTag vs) = list_all (\<lambda>v. - 128 \<le> v \<and> v < 128) vs"
| "representable fmt num (StringTag v) = True"
| "representable fmt num (ListTag ts) = (representable_list fmt num ts \<and> \<not> semicolon_first ts)"
| "representable fmt num (CompoundTag es) = (representable_entries fmt num es \<and> own_order es)"
| "representable fmt num (IntArrayTag vs) = list_all (\<lambda>v. - 2147483648 \<le> v \<and> v < 2147483648) vs"
| "representable fmt num (LongArrayTag vs) =
    list_all (\<lambda>v. - 9223372036854775808 \<le> v \<and> v < 9223372036854775808) vs"
| "representable_list fmt num [] = True"
| "representable_list fmt num (t # ts) = (representable fmt num t \<and> representable_list fmt num ts)"
| "representable_entries fmt num [] = True"
| "representable_entries fmt num ((k, v) # es) =
    (k \<noteq> [] \<and> representable fmt num v \<and> representable_entries fmt num es)"

fun fuel_of :: "tag \<Rightarrow> nat"
  and fuel_of_list :: "tag list \<Rightarrow> nat"
  and fuel_of_entries :: "(jsstring \<times> tag) list \<Rightarrow> nat"
where
  "fuel_of (ListTag ts) = Suc (fuel_of_list ts)"
| "fuel_of (CompoundTag es) = Suc (fuel_of_entries es)"
| "fuel_of (ByteArrayTag vs) = Suc (Suc (Suc (length vs)))"
| "fuel_of (IntArrayTag vs) = Suc (Suc (Suc (length vs)))"
| "fuel_of (LongArrayTag vs) = Suc (Suc (Suc (length vs)))"
| "fuel_of (BooleanTag b) = 1"
| "fuel_of (ByteTag v) = 1"
| "fuel_of (ShortTag v) = 1"
| "fuel_of (IntTag v) = 1"
| "fuel_of (LongTag v) = 1"
| "fuel_of (FloatTag v) = 1"
| "fuel_of (DoubleTag v) = 1"
| "fuel_of (StringTag v) = 1"
| "fuel_of_list [] = 1"
| "fuel_of_list (t # ts) = Suc (max (fuel_of t) (fuel_of_list ts))"
| "fuel_of_entries [] = 1"
| "fuel_of_entries ((k, v) # es) = Suc (max (fuel_of v) (fuel_of_entries es))"

subsection \<open>What the text of a tag starts with and is followed by\<close>

definition opens_tag :: "16 word \<Rightarrow> bool" where
  "opens_tag c = (is_unquoted_char c \<or> c = 0x7B \<or> c = 0x5B \<or> c = 0x22 \<or> c = 0x27)"

definition closes_tag :: "jsstring \<Rightarrow> bool" where
  "closes_tag post = (post = [] \<or> hd post = 0x2C \<or> hd post = 0x5D \<or> hd post = 0x7D)"

lemma unquoted_facts:
  "is_unquoted_char c \<Longrightarrow> \<not> is_whitespace c \<and> c \<noteq> 0x7B \<and> c \<noteq> 0x5B \<and> c \<noteq> 0x22 \<and> c \<noteq> 0x27
     \<and> c \<noteq> 0x2C \<and> c \<noteq> 0x5D \<and> c \<noteq> 0x7D \<and> c \<noteq> 0x3B \<and> c \<noteq> 0x3A"
  unfolding is_unquoted_char_def is_digit_def is_whitespace_def
  by (elim disjE conjE) (auto simp: word_le_nat_alt)

lemma opens_tag_facts:
  "opens_tag c \<Longrightarrow> \<not> is_whitespace c \<and> c \<noteq> 0x2C \<and> c \<noteq> 0x5D \<and> c \<noteq> 0x7D \<and> c \<noteq> 0x3B \<and> c \<noteq> 0x3A"
  using unquoted_facts [of c] by (auto simp: opens_tag_def is_whitespace_def)

lemma closes_tag_token: "closes_tag post \<Longrightarrow> post = [] \<or> \<not> is_unquoted_char (hd post)"
  using unquoted_facts [of "hd post"] by (auto simp: closes_tag_def)

lemma closes_tag_simps [simp]:
  "closes_tag (0x2C # rest)" "closes_tag (0x5D # rest)" "closes_tag (0x7D # rest)" "closes_tag []"
  by (simp_all add: closes_tag_def)

subsection \<open>The writer without indentation\<close>

definition key_text :: "jsstring \<Rightarrow> jsstring" where
  "key_text k = (if is_unquoted_key k then k else snbt_writeString k)"

lemma join_Nil: "join sep [] = []"
  by (simp add: join_def)

lemma join_single: "join sep [x] = x"
  by (simp add: join_def)

lemma join_Cons2: "join sep (x # y # ys) = x @ sep @ join sep (y # ys)"
  by (simp add: join_def)

lemma writeTags_plain: "snbt_writeTags fmt [] level False ts = map (snbt_writeTag fmt [] (level + 1)) ts"
  by (induction ts) simp_all

lemma writeEntries_plain:
  "snbt_writeEntries fmt [] level es
    = map (\<lambda>(k, v). key_text k @ 0x3A # snbt_writeTag fmt [] (level + 1) v) es"
  by (induction es) (auto simp: key_text_def str_simps)

lemma writeTag_list:
  "snbt_writeTag fmt [] level (ListTag ts)
    = 0x5B # join [0x2C] (map (snbt_writeTag fmt [] (level + 1)) ts) @ [0x5D]"
  by (simp add: writeTags_plain str_simps Let_def)

lemma writeTag_compound:
  "snbt_writeTag fmt [] level (CompoundTag es)
    = 0x7B # join [0x2C] (map (\<lambda>(k, v). key_text k @ 0x3A # snbt_writeTag fmt [] (level + 1) v) es) @ [0x7D]"
  by (simp add: writeEntries_plain str_simps Let_def)

lemma writeTag_bytes:
  "list_all (\<lambda>v. - 128 \<le> v \<and> v < 128) vs \<Longrightarrow>
   snbt_writeTag fmt [] level (ByteArrayTag vs)
    = 0x5B # 0x42 # 0x3B # join [0x2C] (map (snbt_writeTag fmt [] (level + 1)) (map ByteTag vs)) @ [0x5D]"
  by (simp add: str_simps list_all_iff Int8_in_range comp_def cong: map_cong)

lemma writeTag_ints:
  "list_all (\<lambda>v. - 2147483648 \<le> v \<and> v < 2147483648) vs \<Longrightarrow>
   snbt_writeTag fmt [] level (IntArrayTag vs)
    = 0x5B # 0x49 # 0x3B # join [0x2C] (map (snbt_writeTag fmt [] (level + 1)) (map IntTag vs)) @ [0x5D]"
  by (simp add: str_simps list_all_iff Int32_in_range comp_def cong: map_cong)

lemma writeTag_longs:
  "snbt_writeTag fmt [] level (LongArrayTag vs)
    = 0x5B # 0x4C # 0x3B # join [0x2C] (map (snbt_writeTag fmt [] (level + 1)) (map LongTag vs)) @ [0x5D]"
  by (simp add: str_simps comp_def)

subsection \<open>First and second character\<close>

lemma key_text_head: "k \<noteq> [] \<Longrightarrow> key_text k \<noteq> [] \<and> opens_tag (hd (key_text k))"
  using snbt_writeString_form [of k]
  by (cases k) (auto simp: key_text_def is_unquoted_key_def opens_tag_def)

lemma show_int_head: "is_unquoted_char (hd (show_int v))"
  using show_int_unquoted [of v] show_int_nonempty [of v] by (cases "show_int v") simp_all

lemma float_head: "is_float_body s \<Longrightarrow> is_unquoted_char (hd s)"
  using float_body_parts(2) [of s] float_body_nonempty [of s] by (cases s) simp_all

lemma opens_unquoted: "is_unquoted_char c \<Longrightarrow> opens_tag c"
  by (simp add: opens_tag_def)

lemma opens_consts: "opens_tag 0x74" "opens_tag 0x5B" "opens_tag 0x7B" "opens_tag 0x22" "opens_tag 0x27"
  by (simp_all add: opens_tag_def is_unquoted_char_def)

lemma writeTag_head:
  "representable fmt num t \<Longrightarrow> snbt_writeTag fmt [] level t \<noteq> [] \<and> opens_tag (hd (snbt_writeTag fmt [] level t))"
proof (cases t)
  case (StringTag v)
  then show ?thesis using snbt_writeString_form [of v] by (auto simp: opens_consts)
next
  case (FloatTag v)
  assume "representable fmt num t"
  with FloatTag show ?thesis
    using float_body_nonempty [of "fmt v"] float_head [of "fmt v"] by (simp add: opens_unquoted)
next
  case (DoubleTag v)
  assume "representable fmt num t"
  with DoubleTag show ?thesis
    using float_body_nonempty [of "fmt v"] float_head [of "fmt v"] by (simp add: opens_unquoted)
qed (simp_all add: opens_unquoted opens_consts show_int_nonempty show_int_head str_simps Let_def)

definition second_ok :: "jsstring \<Rightarrow> bool" where
  "second_ok s = (s \<noteq> [] \<and> (tl s = [] \<or> hd (tl s) \<noteq> 0x3B))"

lemma second_ok_peek:
  assumes "second_ok s" "c \<noteq> 0x3B" "drop off data' = s @ c # more'"
  shows "peek data' (Suc off) \<noteq> Some 0x3B"
proof -
  from assms(1) obtain a rest where s: "s = a # rest" by (cases s) (auto simp: second_ok_def)
  with assms(3) have d1: "drop (Suc off) data' = rest @ c # more'" using drop_advance1 by fastforce
  show ?thesis
  proof (cases rest)
    case Nil
    with d1 assms(2) show ?thesis using peek_Cons [of "Suc off" data' c more'] by simp
  next
    case (Cons b rest')
    with assms(1) s have "b \<noteq> 0x3B" by (simp add: second_ok_def)
    with d1 Cons show ?thesis using peek_Cons [of "Suc off" data' b "rest' @ c # more'"] by simp
  qed
qed

lemma second_ok_token: "s \<noteq> [] \<Longrightarrow> list_all is_unquoted_char s \<Longrightarrow> second_ok s"
proof -
  assume a: "s \<noteq> []" "list_all is_unquoted_char s"
  then obtain c rest where s: "s = c # rest" by (cases s) auto
  show ?thesis
  proof (cases rest)
    case Nil
    with s show ?thesis by (simp add: second_ok_def)
  next
    case (Cons b rest')
    with a s have "is_unquoted_char b" by simp
    with unquoted_facts [of b] s Cons show ?thesis by (simp add: second_ok_def)
  qed
qed

lemma second_ok_snoc: "s \<noteq> [] \<Longrightarrow> list_all is_unquoted_char s \<Longrightarrow> is_unquoted_char c \<Longrightarrow> second_ok (s @ [c])"
  by (rule second_ok_token) simp_all

lemma second_ok_join:
  "(\<forall>x \<in> set xs. x \<noteq> [] \<and> opens_tag (hd x)) \<Longrightarrow> c \<noteq> 0x3B \<Longrightarrow> second_ok (a # join [0x2C] xs @ [c])"
proof (cases xs)
  case Nil
  assume "c \<noteq> 0x3B"
  with Nil show ?thesis by (simp add: second_ok_def join_Nil)
next
  case (Cons x xs')
  assume "\<forall>x \<in> set xs. x \<noteq> [] \<and> opens_tag (hd x)"
  with Cons have x: "x \<noteq> []" "opens_tag (hd x)" by simp_all
  then have "hd x \<noteq> 0x3B" using opens_tag_facts by blast
  then show ?thesis using Cons x(1) by (simp add: second_ok_def join_def)
qed


lemma writeTag_second:
  assumes "representable fmt num t" "\<not> semicolon_first (t # ts)"
  shows "second_ok (snbt_writeTag fmt [] level t)"
proof (cases t)
  case (BooleanTag b)
  with assms(1) show ?thesis by (simp add: second_ok_def str_simps)
next
  case (ByteTag v)
  have "is_unquoted_char 0x62" by (simp add: is_unquoted_char_def)
  with ByteTag show ?thesis
    using second_ok_snoc [OF show_int_nonempty show_int_unquoted] by (simp add: str_simps)
next
  case (ShortTag v)
  have "is_unquoted_char 0x73" by (simp add: is_unquoted_char_def)
  with ShortTag show ?thesis
    using second_ok_snoc [OF show_int_nonempty show_int_unquoted] by (simp add: str_simps)
next
  case (IntTag v)
  then show ?thesis using second_ok_token [OF show_int_nonempty show_int_unquoted] by simp
next
  case (LongTag v)
  have "is_unquoted_char 0x6C" by (simp add: is_unquoted_char_def)
  with LongTag show ?thesis
    using second_ok_snoc [OF show_int_nonempty show_int_unquoted] by (simp add: str_simps)
next
  case (FloatTag v)
  have "is_unquoted_char 0x66" by (simp add: is_unquoted_char_def)
  with FloatTag assms(1) show ?thesis
    using second_ok_snoc [OF float_body_nonempty float_body_parts(2), of "fmt v"] by (simp add: str_simps)
next
  case (DoubleTag v)
  have "is_unquoted_char 0x64" by (simp add: is_unquoted_char_def)
  with DoubleTag assms(1) show ?thesis
    using second_ok_snoc [OF float_body_nonempty float_body_parts(2), of "fmt v"] by (simp add: str_simps)
next
  case (ByteArrayTag vs)
  then show ?thesis by (simp add: second_ok_def str_simps)
next
  case (StringTag v)
  from snbt_writeString_form [of v] obtain q where q: "q = 0x22 \<or> q = 0x27"
    and w: "snbt_writeString v = q # replace_escape (\<lambda>c. c = q \<or> c = 0x5C) v @ [q]" by blast
  show ?thesis
  proof (cases v)
    case Nil
    with w q StringTag show ?thesis by (auto simp: second_ok_def replace_escape_def)
  next
    case (Cons c v')
    with assms(2) StringTag have "c \<noteq> 0x3B" by (simp add: semicolon_first_def)
    with w q StringTag Cons show ?thesis by (auto simp: second_ok_def replace_escape_def)
  qed
next
  case (ListTag ts')
  from assms(1) ListTag have "representable_list fmt num ts'" by simp
  then have "\<forall>t \<in> set ts'. representable fmt num t" by (induction ts') simp_all
  then have "\<forall>x \<in> set (map (snbt_writeTag fmt [] (level + 1)) ts'). x \<noteq> [] \<and> opens_tag (hd x)"
    using writeTag_head by auto
  from second_ok_join [OF this, of "0x5D" "0x5B"] show ?thesis unfolding ListTag writeTag_list by simp
next
  case (CompoundTag es)
  from assms(1) CompoundTag have "representable_entries fmt num es" by simp
  then have "\<forall>(k, v) \<in> set es. k \<noteq> []" by (induction es) auto
  then have "\<forall>x \<in> set (map (\<lambda>(k, v). key_text k @ 0x3A # snbt_writeTag fmt [] (level + 1) v) es).
      x \<noteq> [] \<and> opens_tag (hd x)"
    using key_text_head by (auto simp: hd_append)
  from second_ok_join [OF this, of "0x7D" "0x7B"] show ?thesis unfolding CompoundTag writeTag_compound by simp
next
  case (IntArrayTag vs)
  then show ?thesis by (simp add: second_ok_def str_simps)
next
  case (LongArrayTag vs)
  then show ?thesis by (simp add: second_ok_def str_simps)
qed

subsection \<open>Strings and tokens as tags\<close>

lemma readTag_token:
  assumes "drop off data' = tok @ post" "tok \<noteq> []" "list_all is_unquoted_char tok" "closes_tag post"
  shows "snbt_readTag num (Suc fuel) data' off = Some (Inr (read_token num tok, off + length tok))"
proof -
  from assms(2,3) obtain c rest where tok: "tok = c # rest" and uc: "is_unquoted_char c"
    by (cases tok) auto
  from assms(1) tok have d: "drop off data' = c # (rest @ post)" by simp
  note f = unquoted_facts [OF uc]
  from f have sk: "skipWhitespace data' off = off" using skipWhitespace_Cons [OF d] by simp
  show ?thesis
    using sk allocate1_Cons [OF d] nth_of_drop [OF d] f
      readUnquotedString_token [OF assms(1-3) closes_tag_token [OF assms(4)]]
    by (simp add: Let_def)
qed

lemma readTag_string:
  assumes "drop off data' = snbt_writeString v @ post"
  shows "snbt_readTag num (Suc fuel) data' off = Some (Inr (StringTag v, off + length (snbt_writeString v)))"
proof -
  from snbt_writeString_form [of v] assms obtain q rest where q: "q = 0x22 \<or> q = 0x27"
    and d: "drop off data' = q # rest" by auto
  from q have nw: "\<not> is_whitespace q" by (auto simp: is_whitespace_def)
  have sk: "skipWhitespace data' off = off" using skipWhitespace_Cons [OF d nw] .
  from q have "q \<noteq> 0x7B" "q \<noteq> 0x5B" by auto
  then show ?thesis
    using sk allocate1_Cons [OF d] nth_of_drop [OF d] q readQuotedString_value(1) [OF assms]
    by (auto simp: Let_def then_do_def)
qed

subsection \<open>Separators\<close>

lemma skipSeperator_comma:
  assumes "drop off data' = 0x2C # c # rest" "\<not> is_whitespace c"
  shows "skipSeperator data' off = (True, Suc off)"
proof -
  have nw: "\<not> is_whitespace 0x2C" by (simp add: is_whitespace_def)
  have d1: "drop (Suc off) data' = c # rest" using assms(1) by (rule drop_advance1)
  show ?thesis
    using skipWhitespace_Cons [OF assms(1) nw] allocate1_Cons [OF assms(1)] peek_Cons [OF assms(1)]
      skipWhitespace_Cons [OF d1 assms(2)]
    by (simp add: skipSeperator_def)
qed

lemma skipSeperator_close:
  assumes "drop off data' = c # rest" "c = 0x5D \<or> c = 0x7D"
  shows "skipSeperator data' off = (False, off)"
proof -
  have nw: "\<not> is_whitespace c" using assms(2) by (auto simp: is_whitespace_def)
  have "c \<noteq> 0x2C" using assms(2) by auto
  then show ?thesis
    using skipWhitespace_Cons [OF assms(1) nw] peek_Cons [OF assms(1)]
    by (simp add: skipSeperator_def)
qed

subsection \<open>The list loop\<close>

lemma readSomeList_loop_value:
  "\<lbrakk>\<And>t off post fuel. t \<in> set ts \<Longrightarrow> drop off data' = w t @ post \<Longrightarrow> closes_tag post \<Longrightarrow> fuel_of t \<le> fuel
        \<Longrightarrow> snbt_readTag num fuel data' off = Some (Inr (t, off + length (w t)));
    \<And>t. t \<in> set ts \<Longrightarrow> w t \<noteq> [] \<and> opens_tag (hd (w t));
    ts \<noteq> []; drop off data' = join [0x2C] (map w ts) @ 0x5D # post; fuel_of_list ts \<le> fuel\<rbrakk>
   \<Longrightarrow> readSomeList_loop num fuel data' tagType acc off
        = Some (finishList num data' tagType (acc @ ts) (off + length (join [0x2C] (map w ts))))"
proof (induction ts arbitrary: off acc fuel)
  case Nil
  then show ?case by simp
next
  case (Cons t ts)
  from Cons.prems(5) obtain f where fuel: "fuel = Suc f" and ft: "fuel_of t \<le> f"
    and fl: "fuel_of_list ts \<le> f" by (cases fuel) auto
  from Cons.prems(2) [of t] obtain c wr where wt: "w t = c # wr" and oc: "opens_tag c"
    by (cases "w t") auto
  note cf = opens_tag_facts [OF oc]
  show ?case
  proof (cases ts)
    case Nil
    with Cons.prems(4) have d: "drop off data' = w t @ 0x5D # post" by (simp add: join_single)
    with wt have d0: "drop off data' = c # (wr @ 0x5D # post)" by simp
    have rt: "snbt_readTag num f data' off = Some (Inr (t, off + length (w t)))"
      by (rule Cons.prems(1) [OF _ d _ ft]) simp_all
    from drop_advance [OF d] have d1: "drop (off + length (w t)) data' = 0x5D # post" .
    have ss: "skipSeperator data' (off + length (w t)) = (False, off + length (w t))"
      by (rule skipSeperator_close [OF d1]) simp
    show ?thesis using fuel Nil allocate1_Cons [OF d0] peek_Cons [OF d0] cf rt ss peek_Cons [OF d1]
      by (simp add: join_single)
  next
    case (Cons t2 ts2)
    define J where "J = join [0x2C] (map w ts) @ 0x5D # post"
    from Cons.prems(2) [of t2] Cons obtain c2 wr2 where wt2: "w t2 = c2 # wr2" and oc2: "opens_tag c2"
      by (cases "w t2") auto
    from Cons wt2 obtain Jr where Jc: "J = c2 # Jr" by (simp add: J_def join_def)
    from Cons Cons.prems(4) have d: "drop off data' = w t @ 0x2C # J"
      by (simp add: join_Cons2 J_def)
    with wt have d0: "drop off data' = c # (wr @ 0x2C # J)" by simp
    have rt: "snbt_readTag num f data' off = Some (Inr (t, off + length (w t)))"
      by (rule Cons.prems(1) [OF _ d _ ft]) simp_all
    from drop_advance [OF d] Jc have d1: "drop (off + length (w t)) data' = 0x2C # c2 # Jr" by simp
    have ss: "skipSeperator data' (off + length (w t)) = (True, Suc (off + length (w t)))"
      using skipSeperator_comma [OF d1] opens_tag_facts [OF oc2] by simp
    have d2: "drop (Suc (off + length (w t))) data' = join [0x2C] (map w ts) @ 0x5D # post"
      using drop_advance1 [OF d1] Jc by (simp add: J_def)
    have ne: "ts \<noteq> []" using Cons by simp
    have ih: "readSomeList_loop num f data' tagType (acc @ [t]) (Suc (off + length (w t)))
        = Some (finishList num data' tagType ((acc @ [t]) @ ts)
                 (Suc (off + length (w t)) + length (join [0x2C] (map w ts))))"
      by (rule Cons.IH [OF Cons.prems(1) Cons.prems(2) ne d2 fl]) simp_all
    show ?thesis using fuel Cons allocate1_Cons [OF d0] peek_Cons [OF d0] cf rt ss ih
      by (simp add: join_Cons2 add.assoc)
  qed
qed


subsection \<open>Keys\<close>

lemma readString_key:
  assumes "drop off data' = key_text k @ 0x3A # rest" "k \<noteq> []"
  shows "snbt_readString data' off = Inr (Some k, off + length (key_text k))"
proof (cases "is_unquoted_key k")
  case True
  then have kt: "key_text k = k" and un: "list_all is_unquoted_char k"
    by (simp_all add: key_text_def is_unquoted_key_def)
  from assms(2) un obtain c kr where k: "k = c # kr" and uc: "is_unquoted_char c" by (cases k) auto
  from assms(1) kt k have d: "drop off data' = c # (kr @ 0x3A # rest)" by simp
  have "\<not> is_unquoted_char 0x3A" by (simp add: is_unquoted_char_def is_digit_def)
  then have "readUnquotedString data' off = Some (k, off + length k)"
    using readUnquotedString_token [of off data' k "0x3A # rest"] assms kt un by simp
  then show ?thesis using peek_Cons [OF d] unquoted_facts [OF uc] kt
    by (simp add: snbt_readString_def)
next
  case False
  then have kt: "key_text k = snbt_writeString k" by (simp add: key_text_def)
  with assms(1) have d: "drop off data' = snbt_writeString k @ 0x3A # rest" by simp
  from snbt_writeString_form [of k] d obtain q r where q: "q = 0x22 \<or> q = 0x27"
    and d0: "drop off data' = q # r" by auto
  from readQuotedString_value(1) [OF d] nth_of_drop [OF d0] q peek_Cons [OF d0] kt
  show ?thesis by (auto simp: snbt_readString_def then_do_def)
qed

subsection \<open>The compound loop\<close>

lemma readCompoundTag_loop_value:
  "\<lbrakk>\<And>k v off post fuel. (k, v) \<in> set es \<Longrightarrow> drop off data' = w v @ post \<Longrightarrow> closes_tag post
        \<Longrightarrow> fuel_of v \<le> fuel \<Longrightarrow> snbt_readTag num fuel data' off = Some (Inr (v, off + length (w v)));
    \<And>k v. (k, v) \<in> set es \<Longrightarrow> k \<noteq> [] \<and> w v \<noteq> [] \<and> opens_tag (hd (w v));
    es \<noteq> []; drop off data' = join [0x2C] (map (\<lambda>(k, v). key_text k @ 0x3A # w v) es) @ 0x7D # post;
    fuel_of_entries es \<le> fuel\<rbrakk>
   \<Longrightarrow> readCompoundTag_loop num fuel data' acc off
        = Some (finishCompound data' (foldl (\<lambda>a (k, v). obj_set k v a) acc es)
                 (off + length (join [0x2C] (map (\<lambda>(k, v). key_text k @ 0x3A # w v) es))))"
proof (induction es arbitrary: off acc fuel)
  case Nil
  then show ?case by simp
next
  case (Cons e es)
  obtain k v where e: "e = (k, v)" by (cases e)
  let ?e = "\<lambda>(k, v). key_text k @ 0x3A # w v"
  from Cons.prems(5) e obtain f where fuel: "fuel = Suc f" and ft: "fuel_of v \<le> f"
    and fl: "fuel_of_entries es \<le> f" by (cases fuel) auto
  from Cons.prems(2) [of k v] e have kne: "k \<noteq> []" and wne: "w v \<noteq> []" and ow: "opens_tag (hd (w v))"
    by simp_all
  from key_text_head [OF kne] obtain c kr where kt: "key_text k = c # kr" and oc: "opens_tag c"
    by (cases "key_text k") auto
  note cf = opens_tag_facts [OF oc]
  from wne ow obtain c' wr where wv: "w v = c' # wr" and oc': "opens_tag c'" by (cases "w v") auto
  note cf' = opens_tag_facts [OF oc']
  have colon: "\<not> is_whitespace 0x3A" by (simp add: is_whitespace_def)
  define tail where "tail = (if es = [] then 0x7D # post else 0x2C # join [0x2C] (map ?e es) @ 0x7D # post)"
  have ct: "closes_tag tail" by (simp add: tail_def)
  from Cons.prems(4) e have d: "drop off data' = key_text k @ 0x3A # w v @ tail"
    by (cases es) (simp_all add: join_single join_Cons2 tail_def)
  with kt have d0: "drop off data' = c # (kr @ 0x3A # w v @ tail)" by simp
  have sk0: "skipWhitespace data' off = off" using skipWhitespace_Cons [OF d0] cf by simp
  have p1: "snbt_readTag num fuel' data' off' = Some (Inr (v', off' + length (w v')))"
    if "(k', v') \<in> set es" "drop off' data' = w v' @ post'" "closes_tag post'" "fuel_of v' \<le> fuel'"
    for k' v' off' post' fuel'
    using Cons.prems(1) [of k' v' off' post' fuel'] that by simp
  have p2: "k' \<noteq> [] \<and> w v' \<noteq> [] \<and> opens_tag (hd (w v'))" if "(k', v') \<in> set es" for k' v'
    using Cons.prems(2) [of k' v'] that by simp
  define off1 where "off1 = off + length (key_text k)"
  have rk: "snbt_readString data' off = Inr (Some k, off1)"
    using readString_key [OF d kne] by (simp add: off1_def)
  from drop_advance [OF d] have d1: "drop off1 data' = 0x3A # w v @ tail" by (simp add: off1_def)
  have sk1: "skipWhitespace data' off1 = off1" using skipWhitespace_Cons [OF d1 colon] .
  have ex: "expect data' 0x3A off1 = Inr (Suc off1)" using expect_Cons [OF d1] .
  from drop_advance1 [OF d1] have d2: "drop (Suc off1) data' = w v @ tail" .
  define off3 where "off3 = Suc off1 + length (w v)"
  have rt: "snbt_readTag num f data' (Suc off1) = Some (Inr (v, off3))"
    unfolding off3_def by (rule Cons.prems(1) [of k v, OF _ d2 ct ft]) (simp add: e)
  from drop_advance [OF d2] have d3: "drop off3 data' = tail" by (simp add: off3_def)
  have len: "off3 = off + length (key_text k @ 0x3A # w v)" by (simp add: off3_def off1_def)
  show ?case
  proof (cases es)
    case Nil
    with d3 have d3': "drop off3 data' = 0x7D # post" by (simp add: tail_def)
    have ss: "skipSeperator data' off3 = (False, off3)" by (rule skipSeperator_close [OF d3']) simp
    have tgt: "off + length (join [0x2C] (map ?e (e # es))) = off3"
      using Nil e len by (simp add: join_single)
    show ?thesis
      unfolding tgt
      using fuel Nil e allocate1_Cons [OF d0] peek_Cons [OF d0] cf sk0 rk kne sk1 ex rt ss peek_Cons [OF d3']
      by (simp add: Let_def)
  next
    case (Cons e2 es2)
    obtain k2 v2 where e2: "e2 = (k2, v2)" by (cases e2)
    from Cons.prems(2) [of k2 v2] Cons e2 have "k2 \<noteq> []" by simp
    from key_text_head [OF this] obtain c2 kr2 where kt2: "key_text k2 = c2 # kr2" and oc2: "opens_tag c2"
      by (cases "key_text k2") auto
    from Cons e2 kt2 obtain Jr where Jc: "join [0x2C] (map ?e es) @ 0x7D # post = c2 # Jr"
      by (simp add: join_def)
    with d3 Cons have d3': "drop off3 data' = 0x2C # c2 # Jr" by (simp add: tail_def)
    have ss: "skipSeperator data' off3 = (True, Suc off3)"
      using skipSeperator_comma [OF d3'] opens_tag_facts [OF oc2] by simp
    have d4: "drop (Suc off3) data' = join [0x2C] (map ?e es) @ 0x7D # post"
      using drop_advance1 [OF d3'] Jc by simp
    have ne: "es \<noteq> []" using Cons by simp
    have tgt: "off + length (join [0x2C] (map ?e (e # es))) = Suc off3 + length (join [0x2C] (map ?e es))"
      using Cons e len by (simp add: join_Cons2)
    have ih: "readCompoundTag_loop num f data' (obj_set k v acc) (Suc off3)
        = Some (finishCompound data' (foldl (\<lambda>a (k, v). obj_set k v a) (obj_set k v acc) es)
                 (Suc off3 + length (join [0x2C] (map ?e es))))"
      by (rule Cons.IH [OF p1 p2 ne d4 fl])
    show ?thesis
      unfolding tgt
      using fuel e allocate1_Cons [OF d0] peek_Cons [OF d0] cf sk0 rk kne sk1 ex rt ss ih
      by (simp add: Let_def)
  qed
qed

subsection \<open>Closing a list and a compound\<close>

lemma finishList_list:
  "drop off data' = 0x5D # post \<Longrightarrow> finishList num data' TAG_LIST tags off = Inr (ListTag tags, Suc off)"
  using allocate1_Cons [of off data' "0x5D" post] expect_Cons [of off data' "0x5D" post]
  by (simp add: finishList_def then_do_def)

lemma finishList_array:
  "drop off data' = 0x5D # post \<Longrightarrow>
   finishList num data' tagType tags off
    = then_do (if tagType = TAG_BYTE_ARRAY then snbt_readByteArray num tags
               else if tagType = TAG_INT_ARRAY then snbt_readIntArray num tags
               else if tagType = TAG_LONG_ARRAY then snbt_readLongArray tags
               else Inr (ListTag tags)) (\<lambda>v. Inr (v, Suc off))"
  using allocate1_Cons [of off data' "0x5D" post] expect_Cons [of off data' "0x5D" post]
  by (simp add: finishList_def then_do_def)

lemma finishCompound_close:
  "drop off data' = 0x7D # post \<Longrightarrow> finishCompound data' es off = Inr (CompoundTag es, Suc off)"
  using allocate1_Cons [of off data' "0x7D" post] by (simp add: finishCompound_def)

subsection \<open>Typed array elements\<close>

lemma trunc_of_int: "trunc_toward_zero (of_int v) = v"
  by (simp add: trunc_toward_zero_def)

lemma int8_element: "- 128 \<le> v \<Longrightarrow> v < 128 \<Longrightarrow> sint (ucast (ToInt32 (Num (of_int v))) :: 8 word) = v"
proof -
  assume a: "- 128 \<le> v" "v < 128"
  have "(ucast (word_of_int v :: 32 word) :: 8 word) = word_of_int v"
    by (rule bit_word_eqI) (auto simp: bit_ucast_iff bit_word_of_int_iff)
  moreover have "signed_take_bit 7 v = v" using a by (intro signed_take_bit_int_eq_self) simp_all
  ultimately show ?thesis by (simp add: trunc_of_int sint_sbintrunc')
qed

lemma int32_element:
  "- 2147483648 \<le> v \<Longrightarrow> v < 2147483648 \<Longrightarrow> sint (ToInt32 (Num (of_int v))) = v"
proof -
  assume a: "- 2147483648 \<le> v" "v < 2147483648"
  have "signed_take_bit 31 v = v" using a by (intro signed_take_bit_int_eq_self) simp_all
  then show ?thesis by (simp add: trunc_of_int sint_sbintrunc')
qed

lemma int64_element:
  "- 9223372036854775808 \<le> v \<Longrightarrow> v < 9223372036854775808 \<Longrightarrow> signed_take_bit 63 v = (v :: int)"
  by (intro signed_take_bit_int_eq_self) simp_all

lemma readByteArray_bytes:
  "list_all (\<lambda>v. - 128 \<le> v \<and> v < 128) vs \<Longrightarrow> snbt_readByteArray num (map ByteTag vs) = Inr (ByteArrayTag vs)"
proof -
  assume "list_all (\<lambda>v. - 128 \<le> v \<and> v < 128) vs"
  then have "elements (\<lambda>t. then_do (element_number num t) (\<lambda>v. Inr (sint (ucast (ToInt32 v) :: 8 word))))
      (map ByteTag vs) = Inr vs"
    by (induction vs) (simp_all add: then_do_def int8_element del: ToInt32.simps)
  then show ?thesis by (simp add: snbt_readByteArray_def then_do_def)
qed

lemma readIntArray_ints:
  "list_all (\<lambda>v. - 2147483648 \<le> v \<and> v < 2147483648) vs
    \<Longrightarrow> snbt_readIntArray num (map IntTag vs) = Inr (IntArrayTag vs)"
proof -
  assume "list_all (\<lambda>v. - 2147483648 \<le> v \<and> v < 2147483648) vs"
  then have "elements (\<lambda>t. then_do (element_number num t) (\<lambda>v. Inr (sint (ToInt32 v)))) (map IntTag vs) = Inr vs"
    by (induction vs) (simp_all add: then_do_def int32_element del: ToInt32.simps)
  then show ?thesis by (simp add: snbt_readIntArray_def then_do_def)
qed

lemma readLongArray_longs:
  "list_all (\<lambda>v. - 9223372036854775808 \<le> v \<and> v < 9223372036854775808) vs
    \<Longrightarrow> snbt_readLongArray (map LongTag vs) = Inr (LongArrayTag vs)"
proof -
  assume "list_all (\<lambda>v. - 9223372036854775808 \<le> v \<and> v < 9223372036854775808) vs"
  then have "elements element_bigint (map LongTag vs) = Inr vs"
    by (induction vs) (simp_all add: int64_element)
  then show ?thesis by (simp add: snbt_readLongArray_def then_do_def)
qed

subsection \<open>Leaves\<close>

declare snbt_readTag.simps [simp del] readSomeList_loop.simps [simp del]
  readCompoundTag_loop.simps [simp del]

fun is_leaf :: "tag \<Rightarrow> bool" where
  "is_leaf (ByteArrayTag vs) = False"
| "is_leaf (ListTag ts) = False"
| "is_leaf (CompoundTag es) = False"
| "is_leaf (IntArrayTag vs) = False"
| "is_leaf (LongArrayTag vs) = False"
| "is_leaf _ = True"

lemma readTag_leaf:
  assumes "is_leaf t" "representable fmt num t" "drop off data' = snbt_writeTag fmt [] level t @ post"
    "closes_tag post" "fuel_of t \<le> fuel"
  shows "snbt_readTag num fuel data' off = Some (Inr (t, off + length (snbt_writeTag fmt [] level t)))"
proof -
  from assms(1,5) obtain f where fuel: "fuel = Suc f" by (cases t; cases fuel) auto
  have b: "list_all is_unquoted_char (str ''b'')" "list_all is_unquoted_char (str ''s'')"
    "list_all is_unquoted_char (str ''l'')" "list_all is_unquoted_char (str ''f'')"
    "list_all is_unquoted_char (str ''d'')" "list_all is_unquoted_char (str ''true'')"
    by (simp_all add: str_simps is_unquoted_char_def)
  have ne: "str ''true'' \<noteq> []" by (simp add: str_simps)
  show ?thesis
  proof (cases t)
    case (BooleanTag x)
    with assms(2,3) have "drop off data' = str ''true'' @ post" by simp
    from readTag_token [OF this _ b(6) assms(4)] BooleanTag assms(2) show ?thesis
      by (simp add: fuel token_true ne)
  next
    case (ByteTag v)
    with assms(3) have "drop off data' = (show_int v @ str ''b'') @ post" by simp
    from readTag_token [OF this _ _ assms(4)] ByteTag assms(2) show ?thesis
      by (simp add: fuel token_byte show_int_nonempty show_int_unquoted b)
  next
    case (ShortTag v)
    with assms(3) have "drop off data' = (show_int v @ str ''s'') @ post" by simp
    from readTag_token [OF this _ _ assms(4)] ShortTag assms(2) show ?thesis
      by (simp add: fuel token_short show_int_nonempty show_int_unquoted b)
  next
    case (IntTag v)
    with assms(3) have "drop off data' = show_int v @ post" by simp
    from readTag_token [OF this _ _ assms(4)] IntTag assms(2) show ?thesis
      by (simp add: fuel token_int show_int_nonempty show_int_unquoted)
  next
    case (LongTag v)
    with assms(3) have "drop off data' = (show_int v @ str ''l'') @ post" by simp
    from readTag_token [OF this _ _ assms(4)] LongTag show ?thesis
      by (simp add: fuel token_long show_int_nonempty show_int_unquoted b)
  next
    case (FloatTag v)
    with assms(2) have fb: "is_float_body (fmt v)" and nv: "num (fmt v) = v" by simp_all
    from FloatTag assms(3) have "drop off data' = (fmt v @ str ''f'') @ post" by simp
    from readTag_token [OF this _ _ assms(4)] FloatTag fb nv show ?thesis
      by (simp add: fuel token_float float_body_nonempty float_body_parts(2) b)
  next
    case (DoubleTag v)
    with assms(2) have fb: "is_float_body (fmt v)" and nv: "num (fmt v) = v" by simp_all
    from DoubleTag assms(3) have "drop off data' = (fmt v @ str ''d'') @ post" by simp
    from readTag_token [OF this _ _ assms(4)] DoubleTag fb nv show ?thesis
      by (simp add: fuel token_double float_body_nonempty float_body_parts(2) b)
  next
    case (StringTag v)
    with assms(3) have "drop off data' = snbt_writeString v @ post" by simp
    from readTag_string [OF this] StringTag show ?thesis by (simp add: fuel)
  qed (use assms(1) in simp_all)
qed

subsection \<open>Brackets and braces\<close>

lemma readTag_bracket:
  assumes "drop off data' = 0x5B # rest"
  shows "snbt_readTag num (Suc f) data' off
    = (case readListType data' (Suc off) of
         Inl e \<Rightarrow> Some (Inl e)
       | Inr (tagType, off2) \<Rightarrow> readSomeList_loop num f data' tagType [] (skipWhitespace data' off2))"
proof -
  have nw: "\<not> is_whitespace 0x5B" by (simp add: is_whitespace_def)
  show ?thesis
    using skipWhitespace_Cons [OF assms nw] allocate1_Cons [OF assms] nth_of_drop [OF assms]
      expect_Cons [OF assms]
    by (simp add: snbt_readTag.simps Let_def)
qed

lemma readTag_brace:
  assumes "drop off data' = 0x7B # rest"
  shows "snbt_readTag num (Suc f) data' off = readCompoundTag_loop num f data' [] (Suc off)"
proof -
  have nw: "\<not> is_whitespace 0x7B" by (simp add: is_whitespace_def)
  show ?thesis
    using skipWhitespace_Cons [OF assms nw] allocate1_Cons [OF assms] nth_of_drop [OF assms]
      expect_Cons [OF assms]
    by (simp add: snbt_readTag.simps Let_def)
qed

lemma readListType_list: "peek data' (Suc off) \<noteq> Some 0x3B \<Longrightarrow> readListType data' off = Inr (TAG_LIST, off)"
  by (simp add: readListType_def)

lemma readListType_array:
  assumes "drop off data' = c # 0x3B # rest"
  shows "readListType data' off
    = (if c = 0x42 then Inr (TAG_BYTE_ARRAY, off + 2)
       else if c = 0x49 then Inr (TAG_INT_ARRAY, off + 2)
       else if c = 0x4C then Inr (TAG_LONG_ARRAY, off + 2)
       else Inl (SyntaxError ''Invalid array type''))"
proof -
  have d1: "drop (Suc off) data' = 0x3B # rest" using assms by (rule drop_advance1)
  have "Suc off < length data'" using d1 by (rule drop_Cons_less)
  then have "snbt_allocate data' off 2" by (simp add: snbt_allocate_def)
  then show ?thesis using peek_Cons [OF assms] peek_Cons [OF d1] by (simp add: readListType_def)
qed

subsection \<open>What lies between the brackets\<close>

lemma list_body:
  assumes elems: "\<And>t off post fuel. t \<in> set ts \<Longrightarrow> drop off data' = w t @ post \<Longrightarrow> closes_tag post
        \<Longrightarrow> fuel_of t \<le> fuel \<Longrightarrow> snbt_readTag num fuel data' off = Some (Inr (t, off + length (w t)))"
    and heads: "\<And>t. t \<in> set ts \<Longrightarrow> w t \<noteq> [] \<and> opens_tag (hd (w t))"
    and d: "drop off data' = join [0x2C] (map w ts) @ 0x5D # post"
    and fuel: "fuel_of_list ts \<le> fuel"
  shows "readSomeList_loop num fuel data' tagType [] (skipWhitespace data' off)
     = Some (finishList num data' tagType ts (off + length (join [0x2C] (map w ts))))"
proof (cases ts)
  case Nil
  with d have d0: "drop off data' = 0x5D # post" by (simp add: join_Nil)
  have nw: "\<not> is_whitespace 0x5D" by (simp add: is_whitespace_def)
  from fuel obtain f where f: "fuel = Suc f" by (cases fuel) (simp_all add: Nil)
  show ?thesis
    using skipWhitespace_Cons [OF d0 nw] peek_Cons [OF d0] Nil
    by (simp add: f readSomeList_loop.simps join_Nil)
next
  case (Cons t ts')
  from heads [of t] Cons obtain c wr where wt: "w t = c # wr" and oc: "opens_tag c"
    by (cases "w t") auto
  from d Cons wt obtain r where d0: "drop off data' = c # r" by (simp add: join_def)
  have sk: "skipWhitespace data' off = off"
    using skipWhitespace_Cons [OF d0] opens_tag_facts [OF oc] by simp
  have ne: "ts \<noteq> []" using Cons by simp
  from readSomeList_loop_value [where tagType = tagType and acc = "[]", OF elems heads ne d fuel] sk
  show ?thesis by simp
qed

lemma compound_body:
  assumes elems: "\<And>k v off post fuel. (k, v) \<in> set es \<Longrightarrow> drop off data' = w v @ post \<Longrightarrow> closes_tag post
        \<Longrightarrow> fuel_of v \<le> fuel \<Longrightarrow> snbt_readTag num fuel data' off = Some (Inr (v, off + length (w v)))"
    and heads: "\<And>k v. (k, v) \<in> set es \<Longrightarrow> k \<noteq> [] \<and> w v \<noteq> [] \<and> opens_tag (hd (w v))"
    and d: "drop off data' = join [0x2C] (map (\<lambda>(k, v). key_text k @ 0x3A # w v) es) @ 0x7D # post"
    and fuel: "fuel_of_entries es \<le> fuel"
    and order: "own_order es"
  shows "readCompoundTag_loop num fuel data' [] off
     = Some (Inr (CompoundTag es,
          Suc (off + length (join [0x2C] (map (\<lambda>(k, v). key_text k @ 0x3A # w v) es)))))"
proof (cases es)
  case Nil
  with d have d0: "drop off data' = 0x7D # post" by (simp add: join_Nil)
  from fuel obtain f where f: "fuel = Suc f" by (cases fuel) (simp_all add: Nil)
  show ?thesis
    using peek_Cons [OF d0] Nil finishCompound_close [OF d0]
    by (simp add: f readCompoundTag_loop.simps join_Nil)
next
  case (Cons e es')
  then have ne: "es \<noteq> []" by simp
  let ?J = "join [0x2C] (map (\<lambda>(k, v). key_text k @ 0x3A # w v) es)"
  from drop_advance [OF d] have d1: "drop (off + length ?J) data' = 0x7D # post" .
  from readCompoundTag_loop_value [where acc = "[]", OF elems heads ne d fuel]
    finishCompound_close [OF d1] own_order_foldl [OF order]
  show ?thesis by simp
qed

subsection \<open>Typed arrays\<close>

lemma fuel_of_list_leaves: "(\<forall>t \<in> set ts. fuel_of t = 1) \<Longrightarrow> fuel_of_list ts = Suc (length ts)"
  by (induction ts) simp_all

lemma readTag_array:
  assumes leaves: "\<forall>t \<in> set ts. is_leaf t \<and> representable fmt num t \<and> fuel_of t = 1"
    and d: "drop off data' = 0x5B # c # 0x3B # join [0x2C] (map (snbt_writeTag fmt [] level) ts) @ 0x5D # post"
    and c: "readListType data' (Suc off) = Inr (tagType, Suc (Suc (Suc off)))"
    and fuel: "Suc (Suc (Suc (length ts))) \<le> fuel"
  shows "snbt_readTag num fuel data' off
    = Some (then_do (if tagType = TAG_BYTE_ARRAY then snbt_readByteArray num ts
               else if tagType = TAG_INT_ARRAY then snbt_readIntArray num ts
               else if tagType = TAG_LONG_ARRAY then snbt_readLongArray ts
               else Inr (ListTag ts))
          (\<lambda>v. Inr (v, Suc (Suc (Suc (Suc (off + length (join [0x2C] (map (snbt_writeTag fmt [] level) ts)))))))))"
proof -
  let ?w = "snbt_writeTag fmt [] level"
  let ?J = "join [0x2C] (map ?w ts)"
  from fuel obtain f where f: "fuel = Suc f" and f': "Suc (Suc (length ts)) \<le> f" by (cases fuel) auto
  from leaves have fl: "fuel_of_list ts \<le> f" using fuel_of_list_leaves [of ts] f' by simp
  have d3: "drop (Suc (Suc (Suc off))) data' = ?J @ 0x5D # post"
    using d by (intro drop_advance1 [where c = "0x3B"] drop_advance1 [where c = c]
        drop_advance1 [where c = "0x5B"])
  have elems: "snbt_readTag num fuel' data' off' = Some (Inr (t, off' + length (?w t)))"
    if "t \<in> set ts" "drop off' data' = ?w t @ post'" "closes_tag post'" "fuel_of t \<le> fuel'"
    for t off' post' fuel'
    using readTag_leaf [of t fmt num off' data' level post' fuel'] that leaves by simp
  have heads: "?w t \<noteq> [] \<and> opens_tag (hd (?w t))" if "t \<in> set ts" for t
    using writeTag_head [of fmt num t level] that leaves by simp
  have body: "readSomeList_loop num f data' tagType [] (skipWhitespace data' (Suc (Suc (Suc off))))
      = Some (finishList num data' tagType ts (Suc (Suc (Suc off)) + length ?J))"
    by (rule list_body [where w = ?w, OF elems heads d3 fl])
  from drop_advance [OF d3] have d4: "drop (Suc (Suc (Suc off)) + length ?J) data' = 0x5D # post" .
  show ?thesis
    unfolding f readTag_bracket [OF d] c
    using body finishList_array [OF d4, of num tagType ts]
    by simp
qed

lemma leaves_bytes:
  "list_all (\<lambda>v. - 128 \<le> v \<and> v < 128) vs
    \<Longrightarrow> \<forall>t \<in> set (map ByteTag vs). is_leaf t \<and> representable fmt num t \<and> fuel_of t = 1"
  by (auto simp: list_all_iff)

lemma leaves_ints:
  "list_all (\<lambda>v. - 2147483648 \<le> v \<and> v < 2147483648) vs
    \<Longrightarrow> \<forall>t \<in> set (map IntTag vs). is_leaf t \<and> representable fmt num t \<and> fuel_of t = 1"
  by (auto simp: list_all_iff)

lemma leaves_longs: "\<forall>t \<in> set (map LongTag vs). is_leaf t \<and> representable fmt num t \<and> fuel_of t = 1"
  by auto

subsection \<open>Every tag\<close>

lemma representable_list_iff: "representable_list fmt num ts \<longleftrightarrow> (\<forall>t \<in> set ts. representable fmt num t)"
  by (induction ts) simp_all

lemma representable_entries_iff:
  "representable_entries fmt num es \<longleftrightarrow> (\<forall>(k, v) \<in> set es. k \<noteq> [] \<and> representable fmt num v)"
  by (induction es) auto

lemma fuel_of_list_mem: "t \<in> set ts \<Longrightarrow> fuel_of t \<le> fuel_of_list ts"
  by (induction ts) auto

lemma readTag_value:
  "representable fmt num t \<Longrightarrow> drop off data' = snbt_writeTag fmt [] level t @ post \<Longrightarrow> closes_tag post
    \<Longrightarrow> fuel_of t \<le> fuel
    \<Longrightarrow> snbt_readTag num fuel data' off = Some (Inr (t, off + length (snbt_writeTag fmt [] level t)))"
proof (induction t arbitrary: off post level fuel)
  case (ByteArrayTag vs)
  from ByteArrayTag.prems(1) have r: "list_all (\<lambda>v. - 128 \<le> v \<and> v < 128) vs" by simp
  let ?J = "join [0x2C] (map (snbt_writeTag fmt [] (level + 1)) (map ByteTag vs))"
  from ByteArrayTag.prems(2) have d: "drop off data' = 0x5B # 0x42 # 0x3B # ?J @ 0x5D # post"
    unfolding writeTag_bytes [OF r] by simp
  have c: "readListType data' (Suc off) = Inr (TAG_BYTE_ARRAY, Suc (Suc (Suc off)))"
    using readListType_array [OF drop_advance1 [OF d]] by simp
  from ByteArrayTag.prems(4) have fu: "Suc (Suc (Suc (length (map ByteTag vs)))) \<le> fuel" by simp
  from readTag_array [OF leaves_bytes [OF r] d c fu] readByteArray_bytes [OF r]
  show ?case unfolding writeTag_bytes [OF r] by (simp add: then_do_def)
next
  case (IntArrayTag vs)
  from IntArrayTag.prems(1) have r: "list_all (\<lambda>v. - 2147483648 \<le> v \<and> v < 2147483648) vs" by simp
  let ?J = "join [0x2C] (map (snbt_writeTag fmt [] (level + 1)) (map IntTag vs))"
  from IntArrayTag.prems(2) have d: "drop off data' = 0x5B # 0x49 # 0x3B # ?J @ 0x5D # post"
    unfolding writeTag_ints [OF r] by simp
  have c: "readListType data' (Suc off) = Inr (TAG_INT_ARRAY, Suc (Suc (Suc off)))"
    using readListType_array [OF drop_advance1 [OF d]] by simp
  from IntArrayTag.prems(4) have fu: "Suc (Suc (Suc (length (map IntTag vs)))) \<le> fuel" by simp
  from readTag_array [OF leaves_ints [OF r] d c fu] readIntArray_ints [OF r]
  show ?case unfolding writeTag_ints [OF r] by (simp add: then_do_def)
next
  case (LongArrayTag vs)
  from LongArrayTag.prems(1)
  have r: "list_all (\<lambda>v. - 9223372036854775808 \<le> v \<and> v < 9223372036854775808) vs" by simp
  let ?J = "join [0x2C] (map (snbt_writeTag fmt [] (level + 1)) (map LongTag vs))"
  from LongArrayTag.prems(2) have d: "drop off data' = 0x5B # 0x4C # 0x3B # ?J @ 0x5D # post"
    unfolding writeTag_longs by simp
  have c: "readListType data' (Suc off) = Inr (TAG_LONG_ARRAY, Suc (Suc (Suc off)))"
    using readListType_array [OF drop_advance1 [OF d]] by simp
  from LongArrayTag.prems(4) have fu: "Suc (Suc (Suc (length (map LongTag vs)))) \<le> fuel" by simp
  from readTag_array [OF leaves_longs d c fu] readLongArray_longs [OF r]
  show ?case unfolding writeTag_longs by (simp add: then_do_def)
next
  case (ListTag ts)
  let ?w = "snbt_writeTag fmt [] (level + 1)"
  let ?J = "join [0x2C] (map ?w ts)"
  from ListTag.prems(1) have rl: "\<forall>t \<in> set ts. representable fmt num t" and ns: "\<not> semicolon_first ts"
    by (simp_all add: representable_list_iff)
  from ListTag.prems(2) have d: "drop off data' = 0x5B # ?J @ 0x5D # post"
    unfolding writeTag_list by simp
  from drop_advance1 [OF d] have d1: "drop (Suc off) data' = ?J @ 0x5D # post" .
  from ListTag.prems(4) obtain f where f: "fuel = Suc f" and fl: "fuel_of_list ts \<le> f"
    by (cases fuel) auto
  have semi: "peek data' (Suc (Suc off)) \<noteq> Some 0x3B"
  proof (cases ts)
    case Nil
    with d1 have d1': "drop (Suc off) data' = 0x5D # post" by (simp add: join_Nil)
    from drop_advance1 [OF d1'] have d2: "drop (Suc (Suc off)) data' = post" .
    show ?thesis
    proof (cases post)
      case Nil
      with d2 show ?thesis by (simp add: peek_Nil)
    next
      case (Cons p post')
      with ListTag.prems(3) have "p \<noteq> 0x3B" by (auto simp: closes_tag_def)
      with d2 Cons show ?thesis using peek_Cons [of "Suc (Suc off)" data' p post'] by simp
    qed
  next
    case (Cons t ts')
    with rl ns have rt: "representable fmt num t" and ns': "\<not> semicolon_first (t # ts')" by simp_all
    from Cons d1 obtain c more' where d1': "drop (Suc off) data' = ?w t @ c # more'" and c: "c \<noteq> 0x3B"
      by (cases ts') (auto simp: join_single join_Cons2)
    from second_ok_peek [OF writeTag_second [OF rt ns'] c d1'] show ?thesis .
  qed
  have lt: "readListType data' (Suc off) = Inr (TAG_LIST, Suc off)"
    using semi by (rule readListType_list)
  have elems: "snbt_readTag num fuel' data' off' = Some (Inr (t, off' + length (?w t)))"
    if "t \<in> set ts" "drop off' data' = ?w t @ post'" "closes_tag post'" "fuel_of t \<le> fuel'"
    for t off' post' fuel'
    using ListTag.IH [OF that(1) _ that(2,3,4)] rl that(1) by simp
  have heads: "?w t \<noteq> [] \<and> opens_tag (hd (?w t))" if "t \<in> set ts" for t
    using writeTag_head [of fmt num t "level + 1"] that rl by simp
  have body: "readSomeList_loop num f data' TAG_LIST [] (skipWhitespace data' (Suc off))
      = Some (finishList num data' TAG_LIST ts (Suc off + length ?J))"
    by (rule list_body [where w = ?w, OF elems heads d1 fl])
  from drop_advance [OF d1] have d4: "drop (Suc off + length ?J) data' = 0x5D # post" .
  show ?case
    unfolding f readTag_bracket [OF d] lt writeTag_list
    using body finishList_list [OF d4, of num ts]
    by simp
next
  case (CompoundTag es)
  let ?w = "snbt_writeTag fmt [] (level + 1)"
  let ?J = "join [0x2C] (map (\<lambda>(k, v). key_text k @ 0x3A # ?w v) es)"
  from CompoundTag.prems(1) have re: "\<forall>(k, v) \<in> set es. k \<noteq> [] \<and> representable fmt num v"
    and order: "own_order es" by (simp_all add: representable_entries_iff)
  from CompoundTag.prems(2) have d: "drop off data' = 0x7B # ?J @ 0x7D # post"
    unfolding writeTag_compound by simp
  from drop_advance1 [OF d] have d1: "drop (Suc off) data' = ?J @ 0x7D # post" .
  from CompoundTag.prems(4) obtain f where f: "fuel = Suc f" and fl: "fuel_of_entries es \<le> f"
    by (cases fuel) auto
  have elems: "snbt_readTag num fuel' data' off' = Some (Inr (v, off' + length (?w v)))"
    if "(k, v) \<in> set es" "drop off' data' = ?w v @ post'" "closes_tag post'" "fuel_of v \<le> fuel'"
    for k v off' post' fuel'
  proof -
    from that(1) have "v \<in> Basic_BNFs.snds (k, v)" by simp
    from CompoundTag.IH [OF that(1) this _ that(2,3,4)] re that(1) show ?thesis by auto
  qed
  have heads: "k \<noteq> [] \<and> ?w v \<noteq> [] \<and> opens_tag (hd (?w v))" if "(k, v) \<in> set es" for k v
    using writeTag_head [of fmt num v "level + 1"] that re by auto
  have body: "readCompoundTag_loop num f data' [] (Suc off) = Some (Inr (CompoundTag es, Suc (Suc off + length ?J)))"
    by (rule compound_body [where w = ?w, OF elems heads d1 fl order])
  show ?case
    unfolding f readTag_brace [OF d] writeTag_compound
    using body by simp
qed (rule readTag_leaf; simp)+

subsection \<open>The round trip\<close>

text \<open>
  A sample for the results below: a platform that prints the one float of the sample
  tree as \<^verbatim>\<open>0.5\<close> and reads that literal back.
\<close>

definition sample_fmt :: "jsnumber \<Rightarrow> jsstring" where
  "sample_fmt v = str ''0.5''"

definition sample_num :: "jsstring \<Rightarrow> jsnumber" where
  "sample_num v = Num (1 / 2)"

definition sample_tree :: "(jsstring \<times> tag) list" where
  "sample_tree =
    [(str ''7'', ByteTag (- 1)),
     (str ''a b'', ListTag [DoubleTag (Num (1 / 2)), DoubleTag (Num (1 / 2))]),
     (str ''s'', StringTag (str ''it's'')),
     (str ''L'', LongArrayTag [5])]"

lemma sample_tree_representable: "representable sample_fmt sample_num (CompoundTag sample_tree)"
  by (simp add: sample_tree_def sample_fmt_def sample_num_def own_order_def obj_set_def array_index_def
      is_digit_def digits_value_def str_simps is_float_body_def strip_sign_def semicolon_first_def)

text \<open>
  C2 (as amended). For every tree that \<open>representable\<close> accepts, parsing the text
  that \<^verbatim>\<open>stringify\<close> writes with its default \<^verbatim>\<open>space\<close> returns the tree, given
  fuel enough for the parser.
\<close>

theorem parse_stringify_round_trip:
  assumes "representable fmt num (CompoundTag es)" and "fuel_of (CompoundTag es) \<le> fuel"
  shows "parse num fuel (stringify fmt (SpaceString []) es) = Some (Inr (CompoundTag es))"
proof -
  let ?w = "snbt_writeTag fmt [] (1 + 1)"
  let ?J = "join [0x2C] (map (\<lambda>(k, v). key_text k @ 0x3A # ?w v) es)"
  define data' where "data' = stringify fmt (SpaceString []) es"
  have data: "data' = 0x7B # ?J @ [0x7D]"
    unfolding data'_def stringify_def Let_def Space.case writeTag_compound ..
  then have d: "drop 0 data' = 0x7B # ?J @ 0x7D # []" by simp
  from drop_advance1 [OF d] have d1: "drop (Suc 0) data' = ?J @ 0x7D # []" .
  have nw: "\<not> is_whitespace 0x7B" by (simp add: is_whitespace_def)
  have ex: "expect data' 0x7B (skipWhitespace data' 0) = Inr (Suc 0)"
    using skipWhitespace_Cons [OF d nw] expect_Cons [OF d] by simp
  from assms(1) have re: "\<forall>(k, v) \<in> set es. k \<noteq> [] \<and> representable fmt num v"
    and order: "own_order es" by (simp_all add: representable_entries_iff)
  from assms(2) have fl: "fuel_of_entries es \<le> fuel" by simp
  have elems: "snbt_readTag num fuel' data' off' = Some (Inr (v, off' + length (?w v)))"
    if "(k, v) \<in> set es" "drop off' data' = ?w v @ post'" "closes_tag post'" "fuel_of v \<le> fuel'"
    for k v off' post' fuel'
    using readTag_value [OF _ that(2,3,4)] re that(1) by auto
  have heads: "k \<noteq> [] \<and> ?w v \<noteq> [] \<and> opens_tag (hd (?w v))" if "(k, v) \<in> set es" for k v
    using writeTag_head [of fmt num v "1 + 1"] that re by auto
  have body: "readCompoundTag_loop num fuel data' [] (Suc 0)
      = Some (Inr (CompoundTag es, Suc (Suc 0 + length ?J)))"
    by (rule compound_body [where w = ?w, OF elems heads d1 fl order])
  have "Suc (Suc 0 + length ?J) = length data'" by (simp add: data)
  then have "\<not> snbt_allocate data' (skipWhitespace data' (Suc (Suc 0 + length ?J))) 1"
    by (simp add: skipWhitespace_def snbt_allocate_def)
  with ex body show ?thesis unfolding data'_def [symmetric] by (simp add: parse_def)
qed

theorem parse_stringify_round_trip_witness:
  "parse sample_num 9 (stringify sample_fmt (SpaceString []) sample_tree)
    = Some (Inr (CompoundTag sample_tree))"
proof -
  have "fuel_of (CompoundTag sample_tree) \<le> 9"
    by (simp add: sample_tree_def)
  with parse_stringify_round_trip [OF sample_tree_representable] show ?thesis by simp
qed

lemma show_int_1: "show_int 1 = [0x31]"
  by (simp add: show_int_def show_nat.simps)

lemma stringify_empty_key:
  "stringify sample_fmt (SpaceString []) [([], ByteTag 1)] = [0x7B, 0x22, 0x22, 0x3A, 0x31, 0x62, 0x7D]"
  by (simp add: stringify_def join_def is_unquoted_key_def snbt_writeString_def replace_escape_def
      show_int_1 str_simps)

text \<open>
  C2 as stated fails: the compound \<^verbatim>\<open>{"": 1b}\<close> holds no float, \<^verbatim>\<open>stringify\<close>
  writes it as \<^verbatim>\<open>{"":1b}\<close>, and \<^verbatim>\<open>parse\<close> refuses that text, because
  \<^verbatim>\<open>#readCompoundTag\<close> throws on an empty key.
\<close>

theorem empty_key_not_round_tripped:
  "stringify sample_fmt (SpaceString []) [([], ByteTag 1)] = [0x7B, 0x22, 0x22, 0x3A, 0x31, 0x62, 0x7D]
   \<and> parse sample_num (Suc (Suc 0)) (stringify sample_fmt (SpaceString []) [([], ByteTag 1)])
       = Some (Inl (SyntaxError ''Key cannot be empty''))"
  unfolding stringify_empty_key
  by (simp add: parse_def snbt_allocate_def peek_def skipWhitespace_def expect_def is_whitespace_def
      snbt_readString_def readQuotedString_def readQuotedString_loop.simps readCompoundTag_loop.simps
      slice_def then_do_def)

text \<open>
  A list that starts with a string starting with a semicolon is not read back either:
  after \<^verbatim>\<open>[\<close> the parser takes a semicolon in second place for the mark of a typed
  array, and the quote before it is no array type.
\<close>

lemma stringify_semicolon:
  "stringify sample_fmt (SpaceString []) [(str ''a'', ListTag [StringTag (str '';'')])]
    = [0x7B, 0x61, 0x3A, 0x5B, 0x22, 0x3B, 0x22, 0x5D, 0x7D]"
  by (simp add: stringify_def join_def is_unquoted_key_def is_unquoted_char_def snbt_writeString_def
      replace_escape_def str_simps)

lemma semicolon_string_list_rejected:
  "parse sample_num (Suc (Suc (Suc 0)))
      (stringify sample_fmt (SpaceString []) [(str ''a'', ListTag [StringTag (str '';'')])])
    = Some (Inl (SyntaxError ''Invalid array type''))"
  unfolding stringify_semicolon
  by (simp add: parse_def snbt_allocate_def peek_def skipWhitespace_def expect_def is_whitespace_def
      snbt_readString_def readUnquotedString_def is_unquoted_char_def is_digit_def readListType_def
      snbt_readTag.simps readCompoundTag_loop.simps)
end
